theory Spec2Isabelle
  imports Main "HOL-Library.Sublist"
begin

section \<open>Python strings\<close>

text \<open>
  A Python \<open>str\<close> is a sequence of Unicode code points, and \<open>len\<close> counts code points.
  A string is therefore a list of natural numbers; \<open>py\<close> turns an ASCII literal into
  its code points.

  White space (\<open>str.strip\<close>, \<open>\s\<close>) is the full Unicode set, and case-insensitive
  matching knows the four non-ASCII letters that \<open>re\<close> documents as matching ASCII
  letters.
\<close>

type_synonym pystr = "nat list"

definition py :: "string \<Rightarrow> pystr" where
  "py s = map of_char s"

definition isascii :: "nat \<Rightarrow> bool" where
  "isascii c = (c < 128)"

definition isupper_ascii :: "nat \<Rightarrow> bool" where
  "isupper_ascii c = (65 \<le> c \<and> c \<le> 90)"

definition islower_ascii :: "nat \<Rightarrow> bool" where
  "islower_ascii c = (97 \<le> c \<and> c \<le> 122)"

definition isalpha_ascii :: "nat \<Rightarrow> bool" where
  "isalpha_ascii c = (isupper_ascii c \<or> islower_ascii c)"

text \<open>The ten digits \<open>0\<close> to \<open>9\<close>.\<close>

definition ascii_digit :: "nat \<Rightarrow> bool" where
  "ascii_digit c = (48 \<le> c \<and> c \<le> 57)"

definition isspace :: "nat \<Rightarrow> bool" where
  "isspace c = ((9 \<le> c \<and> c \<le> 13) \<or> (28 \<le> c \<and> c \<le> 32) \<or> c = 133 \<or> c = 160
     \<or> c = 5760 \<or> (8192 \<le> c \<and> c \<le> 8202) \<or> c = 8232 \<or> c = 8233 \<or> c = 8239
     \<or> c = 8287 \<or> c = 12288)"

text \<open>
  Lowering the letters \<open>A\<close> to \<open>Z\<close> and no other character. This is what \<open>str.lower\<close>
  returns for a text of ASCII characters.
\<close>

definition ascii_lower_cp :: "nat \<Rightarrow> nat" where
  "ascii_lower_cp c = (if isupper_ascii c then c + 32 else c)"

definition ascii_lower :: "pystr \<Rightarrow> pystr" where
  "ascii_lower s = map ascii_lower_cp s"

section \<open>What the libraries provide\<close>

text \<open>
  Some functions that the scraper calls are defined by tables or code outside the
  program, and are taken as given. They are the fields of one record, and every
  function of the model that needs one takes the record as its first argument:
  \<^item> \<open>str_lower\<close> is \<open>str.lower\<close>, which follows the Unicode case mappings;
  \<^item> \<open>re_digit\<close> says which characters the class \<open>\d\<close> of \<open>re\<close> matches in a text, the
    decimal digits of every script;
  \<^item> \<open>urljoin\<close> is \<open>urllib.parse.urljoin\<close> (\<open>None\<close> when it raises);
  \<^item> \<open>bracketed_host_ok\<close> says whether \<open>_check_bracketed_host\<close> of \<open>urllib.parse\<close>
    accepts the host between brackets;
  \<^item> \<open>nfkc_ok\<close> says whether \<open>_checknetloc\<close> of \<open>urllib.parse\<close> accepts a location that
    is not ASCII.
\<close>

record pylib =
  str_lower :: "pystr \<Rightarrow> pystr"
  re_digit :: "nat \<Rightarrow> bool"
  urljoin :: "pystr \<Rightarrow> pystr \<Rightarrow> pystr option"
  bracketed_host_ok :: "pystr \<Rightarrow> bool"
  nfkc_ok :: "pystr \<Rightarrow> bool"

text \<open>\<open>s.lstrip(chars)\<close>, \<open>s.rstrip(chars)\<close> and \<open>s.strip(chars)\<close>, for a predicate on code points.\<close>

definition lstrip_by :: "(nat \<Rightarrow> bool) \<Rightarrow> pystr \<Rightarrow> pystr" where
  "lstrip_by P s = dropWhile P s"

definition rstrip_by :: "(nat \<Rightarrow> bool) \<Rightarrow> pystr \<Rightarrow> pystr" where
  "rstrip_by P s = rev (dropWhile P (rev s))"

definition strip_by :: "(nat \<Rightarrow> bool) \<Rightarrow> pystr \<Rightarrow> pystr" where
  "strip_by P s = rstrip_by P (lstrip_by P s)"

definition strip :: "pystr \<Rightarrow> pystr" where
  "strip s = strip_by isspace s"

definition startswith :: "pystr \<Rightarrow> pystr \<Rightarrow> bool" where
  "startswith s p = (take (length p) s = p)"

definition endswith :: "pystr \<Rightarrow> pystr \<Rightarrow> bool" where
  "endswith s p = (length p \<le> length s \<and> drop (length s - length p) s = p)"

text \<open>\<open>p in s\<close> for strings: \<open>p\<close> occurs in \<open>s\<close> as a contiguous run.\<close>

fun contains :: "pystr \<Rightarrow> pystr \<Rightarrow> bool" where
  "contains p [] = (p = [])"
| "contains p (c # cs) = (startswith (c # cs) p \<or> contains p cs)"

section \<open>The scraper's state\<close>

text \<open>
  One \<open>FAQScraper\<close> object. A record of \<open>all_faqs\<close> is the dictionary with the keys
  \<open>question\<close>, \<open>answer\<close> and \<open>sourceUrl\<close>. \<open>visited_urls\<close> is a Python set whose only
  operations are \<open>add\<close>, \<open>in\<close> and \<open>len\<close>; it is kept as the list of its members in
  the order they were added (\<open>set_add\<close>), so that \<open>len\<close> is \<open>length\<close>. The field
  \<open>timeout\<close> is not read by the synchronous crawl and is left out.
\<close>

record faq =
  question :: pystr
  answer :: pystr
  sourceUrl :: pystr

record scraper =
  base_url :: pystr
  domain :: pystr
  max_pages :: int
  visited_urls :: "pystr list"
  all_faqs :: "faq list"
  seen_questions :: "pystr set"
  faq_page_found :: bool

definition set_add :: "'a \<Rightarrow> 'a list \<Rightarrow> 'a list" where
  "set_add x xs = (if x \<in> set xs then xs else xs @ [x])"

section \<open>The English heuristic\<close>

text \<open>
  \<open>_is_english\<close>. The source compares the float \<open>non_ascii / total_letters\<close> with the
  float \<open>0.3\<close>. Python divides two integers with correct rounding, and the double
  nearest to 0.3 lies about \<open>1.1e-17\<close> below it, so for a text of fewer than \<open>10^15\<close>
  characters the comparison holds exactly when \<open>10 * non_ascii < 3 * total_letters\<close>;
  that is the test written here.
\<close>

definition ascii_letters :: "pystr \<Rightarrow> nat" where
  "ascii_letters text = length (filter (\<lambda>c. isascii c \<and> isalpha_ascii c) text)"

definition non_ascii :: "pystr \<Rightarrow> nat" where
  "non_ascii text = length (filter (\<lambda>c. \<not> isascii c) text)"

definition is_english :: "pystr \<Rightarrow> bool" where
  "is_english text =
     (if text = [] then False
      else (let total_letters = ascii_letters text + non_ascii text
            in if total_letters = 0 then True
               else 10 * non_ascii text < 3 * total_letters))"

section \<open>Adding a question and answer\<close>

text \<open>
  \<open>re.sub(r'^[bB]?[\"\']?', '', question)\<close>: the pattern is anchored at the start, so it
  matches once, at position 0, an optional \<open>b\<close> or \<open>B\<close> and then an optional quote.
\<close>

definition strip_string_prefix :: "pystr \<Rightarrow> pystr" where
  "strip_string_prefix q =
     (let q1 = (case q of [] \<Rightarrow> [] | c # r \<Rightarrow> if c = 98 \<or> c = 66 then r else q)
      in case q1 of [] \<Rightarrow> [] | c # r \<Rightarrow> if c = 34 \<or> c = 39 then r else q1)"

text \<open>
  \<open>re.sub(r'^\d+[\)\.\:\s]*(?=[A-Za-z])', '', question)\<close>: one or more digits, then any
  run of \<open>)\<close>, \<open>.\<close>, \<open>:\<close> and white space, and an ASCII letter must follow. Both runs are
  greedy and giving a character back never helps, since the character given back is a
  digit or a separator and so no letter; the match is the two maximal runs, when a
  letter comes next.
\<close>

definition ordinal_sep :: "nat \<Rightarrow> bool" where
  "ordinal_sep c = (c = 41 \<or> c = 46 \<or> c = 58 \<or> isspace c)"

definition strip_ordinal :: "pylib \<Rightarrow> pystr \<Rightarrow> pystr" where
  "strip_ordinal L q =
     (let r = dropWhile ordinal_sep (dropWhile (re_digit L) q)
      in case r of
           [] \<Rightarrow> q
         | c # _ \<Rightarrow> if takeWhile (re_digit L) q \<noteq> [] \<and> isalpha_ascii c then r else q)"

definition skip_patterns :: "pystr list" where
  "skip_patterns = map py
     [''forgot your password'', ''reset password'', ''sign in'', ''log in'',
      ''create account'', ''register'', ''subscribe'', ''newsletter'',
      ''contact us'', ''get in touch'']"

text \<open>
  The question as \<open>_add_faq\<close> stores it, and the key it looks up in \<open>seen_questions\<close>.
  (The first assignment to \<open>q_normalized\<close> in the source is overwritten before use.)
\<close>

definition clean_question :: "pylib \<Rightarrow> pystr \<Rightarrow> pystr" where
  "clean_question L q = strip (strip_ordinal L (strip (strip_string_prefix q)))"

definition question_key :: "pylib \<Rightarrow> pystr \<Rightarrow> pystr" where
  "question_key L q = strip (str_lower L q)"

definition add_faq :: "pylib \<Rightarrow> pystr \<Rightarrow> pystr \<Rightarrow> pystr \<Rightarrow> scraper \<Rightarrow> scraper" where
  "add_faq L q a source_url s =
     (if \<not> is_english q \<or> \<not> is_english a then s
      else (let q' = clean_question L q;
                q_normalized = question_key L q'
            in if list_ex (\<lambda>p. contains p q_normalized) skip_patterns then s
               else if q_normalized \<noteq> [] \<and> q_normalized \<notin> seen_questions s \<and> 5 < length q'
                    then s\<lparr>seen_questions := insert q_normalized (seen_questions s),
                           all_faqs := all_faqs s @
                             [\<lparr>question = q', answer = a, sourceUrl = source_url\<rparr>]\<rparr>
                    else s))"

section \<open>Text cleaning\<close>

text \<open>
  \<open>re.sub(r'\s+', ' ', text)\<close>: every maximal run of white space becomes one space.
\<close>

fun collapse_ws :: "pystr \<Rightarrow> pystr" where
  "collapse_ws [] = []"
| "collapse_ws [c] = (if isspace c then [32] else [c])"
| "collapse_ws (c # d # cs) =
     (if isspace c then (if isspace d then collapse_ws (d # cs) else 32 # collapse_ws (d # cs))
      else c # collapse_ws (d # cs))"

text \<open>The characters of \<open>text.strip('...')\<close>: bullet, middle dot, hyphen, en and em dash, star, hash.\<close>

definition decoration :: "nat \<Rightarrow> bool" where
  "decoration c = (c = 8226 \<or> c = 183 \<or> c = 45 \<or> c = 8211 \<or> c = 8212 \<or> c = 42 \<or> c = 35)"

text \<open>
  Matching with \<open>re.IGNORECASE\<close>: a character of the text is compared after lowering.
  Besides the ASCII capitals, four letters lower to an ASCII letter: dotted capital I and
  dotless i (to \<open>i\<close>), long s (to \<open>s\<close>) and the Kelvin sign (to \<open>k\<close>). The literal
  patterns below are written in lower case.
\<close>

definition ci_lower :: "nat \<Rightarrow> nat" where
  "ci_lower c =
     (if isupper_ascii c then c + 32
      else if c = 304 \<or> c = 305 then 105
      else if c = 383 then 115
      else if c = 8490 then 107
      else c)"

definition ci_fold :: "pystr \<Rightarrow> pystr" where
  "ci_fold s = map ci_lower s"

text \<open>A pattern without repetition is a list of tests, one for each character.\<close>

fun matches_at :: "(nat \<Rightarrow> bool) list \<Rightarrow> pystr \<Rightarrow> bool" where
  "matches_at [] s = True"
| "matches_at (P # Ps) [] = False"
| "matches_at (P # Ps) (c # cs) = (P c \<and> matches_at Ps cs)"

text \<open>\<open>re.search\<close>: the position of the leftmost match, if any.\<close>

fun find_match :: "(nat \<Rightarrow> bool) list \<Rightarrow> pystr \<Rightarrow> nat option" where
  "find_match Ps [] = (if Ps = [] then Some 0 else None)"
| "find_match Ps (c # cs) =
     (if matches_at Ps (c # cs) then Some 0 else map_option Suc (find_match Ps cs))"

definition literal_ci :: "string \<Rightarrow> (nat \<Rightarrow> bool) list" where
  "literal_ci lit = map (\<lambda>p c. ci_lower c = p) (py lit)"

text \<open>
  The noise patterns of \<open>_normalize_text\<close>. White space has been collapsed to single
  spaces before they run, so the text holds no newline, \<open>.*$\<close> runs to the end of the text
  and \<open>$\<close> is the end of the text. \<open>cut_at\<close> is \<open>re.sub(P + '.*$', '', text)\<close>.
\<close>

definition cut_at :: "(nat \<Rightarrow> bool) list \<Rightarrow> pystr \<Rightarrow> pystr" where
  "cut_at Ps text = (case find_match Ps text of None \<Rightarrow> text | Some i \<Rightarrow> take i text)"

text \<open>\<open>\<copyright> \d{4}.*$\<close>: the copyright sign, a space, four digits.\<close>

definition copyright_pattern :: "pylib \<Rightarrow> (nat \<Rightarrow> bool) list" where
  "copyright_pattern L =
     [\<lambda>c. c = 169, \<lambda>c. c = 32, re_digit L, re_digit L, re_digit L, re_digit L]"

text \<open>
  \<open>Privacy Policy.*Terms.*$\<close>: the leftmost \<open>privacy policy\<close> that has \<open>terms\<close> somewhere
  after it. If any occurrence has, the first one has.
\<close>

definition cut_privacy_terms :: "pystr \<Rightarrow> pystr" where
  "cut_privacy_terms text =
     (case find_match (literal_ci ''privacy policy'') text of
        None \<Rightarrow> text
      | Some i \<Rightarrow>
          (case find_match (literal_ci ''terms'') (drop (i + 14) text) of
             None \<Rightarrow> text
           | Some _ \<Rightarrow> take i text))"

text \<open>\<open>To Top$\<close>.\<close>

definition cut_to_top :: "pystr \<Rightarrow> pystr" where
  "cut_to_top text =
     (if endswith (ci_fold text) (py ''to top'') then take (length text - 6) text else text)"

definition normalize_text :: "pylib \<Rightarrow> pystr \<Rightarrow> pystr" where
  "normalize_text L text =
     (if text = [] then []
      else (let t1 = strip (collapse_ws text);
                t2 = strip_by decoration t1;
                t3 = cut_at (literal_ci ''subscribe newsletter'') t2;
                t4 = cut_at (literal_ci ''sign up to get'') t3;
                t5 = cut_at (copyright_pattern L) t4;
                t6 = cut_at (literal_ci ''all rights reserved'') t5;
                t7 = cut_privacy_terms t6;
                t8 = cut_to_top t7
            in strip t8))"

section \<open>FAQ signals\<close>

definition is_faq_link :: "pylib \<Rightarrow> pystr \<Rightarrow> pystr \<Rightarrow> bool" where
  "is_faq_link L url link_text =
     (let url_lower = str_lower L url;
          text_lower = str_lower L link_text;
          url_patterns = map py [''/faq'', ''/faqs'', ''/frequently-asked'', ''/help/faq'',
            ''/support/faq'', ''faq.'', ''/questions'', ''/q-and-a'', ''/qa''];
          text_patterns = map py [''faq'', ''frequently asked'', ''questions'', ''q&a'',
            ''help center'']
      in list_ex (\<lambda>p. contains p url_lower) url_patterns
         \<or> list_ex (\<lambda>p. contains p text_lower) text_patterns)"

definition is_faq_heading :: "pylib \<Rightarrow> pystr \<Rightarrow> bool" where
  "is_faq_heading L text =
     (let text_lower = strip (str_lower L text);
          faq_heading_patterns = map py [''faq'', ''faqs'', ''f.a.q'', ''f.a.q.s'',
            ''frequently asked questions'', ''frequently asked'', ''common questions'',
            ''questions & answers'', ''questions and answers'', ''q&a'', ''q & a'',
            ''have questions'', ''got questions'']
      in list_ex (\<lambda>p. contains p text_lower) faq_heading_patterns)"

section \<open>Extraction\<close>

text \<open>
  The document tree and its queries belong to the HTML library. An element is seen
  through the results of the queries that \<open>_extract_from_faq_element\<close> makes on it, each
  text being the \<open>get_text(strip=True)\<close> of the node named:
  \<^item> \<open>details\<close>: for each \<open>details\<close> descendant, the text of its \<open>summary\<close> if it has one,
    and the texts of its other children that have a text;
  \<^item> \<open>qa_containers\<close>: for each container matched by class, the texts of the question
    element and of the answer element found in it, if any;
  \<^item> \<open>headings\<close>: for each \<open>h3\<close> to \<open>h6\<close> descendant, its text and the following sibling
    elements as pairs of tag name and text;
  \<^item> \<open>dls\<close>: for each \<open>dl\<close> descendant, the texts of its \<open>dt\<close> and of its \<open>dd\<close> elements;
  \<^item> \<open>md_questions\<close>, \<open>md_answers\<close>: what the two \<open>re.findall\<close> calls return on the
    element's text;
  \<^item> \<open>paragraphs\<close>: the texts of the \<open>p\<close> descendants.
\<close>

record element =
  details :: "(pystr option \<times> pystr list) list"
  qa_containers :: "(pystr option \<times> pystr option) list"
  headings :: "(pystr \<times> (pystr \<times> pystr) list) list"
  dls :: "(pystr list \<times> pystr list) list"
  md_questions :: "pystr list"
  md_answers :: "pystr list"
  paragraphs :: "pystr list"

text \<open>
  A content node of an FAQ section is a \<open>p\<close> element, given by its text, or another
  element. A page, as the fetch returns it: the anchors with an \<open>href\<close> (the attribute
  and the anchor's text), the name and answer text of every \<open>Question\<close> item that
  \<open>_extract_schema_faqs\<close> reaches, and the content of the sections that
  \<open>_find_faq_sections\<close> returns. (\<open>_fetch_page_sync\<close> removes every \<open>script\<close> element
  before the page is used, so on a crawl \<open>schema_items\<close> is empty.)
\<close>

datatype content = Paragraph pystr | Element element

record page =
  anchors :: "(pystr \<times> pystr) list"
  schema_items :: "(pystr \<times> pystr) list"
  sections :: "content list list"

text \<open>
  Whether a pair is passed to \<open>_add_faq\<close> depends on the page alone, never on the
  scraper's state. Each strategy is therefore the list of the pairs it passes on, in
  order, and \<open>add_all\<close> makes the calls.
\<close>

definition add_all :: "pylib \<Rightarrow> (pystr \<times> pystr) list \<Rightarrow> pystr \<Rightarrow> scraper \<Rightarrow> scraper" where
  "add_all L pairs url s = fold (\<lambda>(q, a). add_faq L q a url) pairs s"

text \<open>\<open>' '.join(parts)\<close>.\<close>

fun join_sp :: "pystr list \<Rightarrow> pystr" where
  "join_sp [] = []"
| "join_sp [x] = x"
| "join_sp (x # y # ys) = x @ 32 # join_sp (y # ys)"

text \<open>\<open>if question and answer\<close>: both non-empty.\<close>

definition both :: "pystr \<Rightarrow> pystr \<Rightarrow> (pystr \<times> pystr) list" where
  "both q a = (if q \<noteq> [] \<and> a \<noteq> [] then [(q, a)] else [])"

text \<open>\<open>if question and answer and len(answer) > 20\<close>.\<close>

definition both_long :: "pystr \<Rightarrow> pystr \<Rightarrow> (pystr \<times> pystr) list" where
  "both_long q a = (if q \<noteq> [] \<and> a \<noteq> [] \<and> 20 < length a then [(q, a)] else [])"

text \<open>Pattern 1: details and summary.\<close>

definition details_pairs :: "pylib \<Rightarrow> element \<Rightarrow> (pystr \<times> pystr) list" where
  "details_pairs L e = concat (map (\<lambda>(summary, children).
       case summary of
         None \<Rightarrow> []
       | Some t \<Rightarrow> both (normalize_text L t) (normalize_text L (join_sp children)))
     (details e))"

text \<open>Pattern 2: containers matched by class.\<close>

definition container_pairs :: "pylib \<Rightarrow> element \<Rightarrow> (pystr \<times> pystr) list" where
  "container_pairs L e = concat (map (\<lambda>(q_elem, a_elem).
       case (q_elem, a_elem) of
         (Some q, Some a) \<Rightarrow> both (normalize_text L q) (normalize_text L a)
       | _ \<Rightarrow> [])
     (qa_containers e))"

text \<open>
  Pattern 3: a heading and the \<open>p\<close> and \<open>div\<close> siblings up to the next heading.
  \<open>re.sub(r'^\d+\.\s*', '', question)\<close> removes a run of digits, a dot and the white
  space after it.
\<close>

definition heading_names :: "pystr list" where
  "heading_names = map py [''h1'', ''h2'', ''h3'', ''h4'', ''h5'', ''h6'']"

definition strip_leading_number :: "pylib \<Rightarrow> pystr \<Rightarrow> pystr" where
  "strip_leading_number L q =
     (case dropWhile (re_digit L) q of
        [] \<Rightarrow> q
      | c # r \<Rightarrow> if takeWhile (re_digit L) q \<noteq> [] \<and> c = 46 then dropWhile isspace r else q)"

definition heading_pairs :: "pylib \<Rightarrow> element \<Rightarrow> (pystr \<times> pystr) list" where
  "heading_pairs L e = concat (map (\<lambda>(heading_text, siblings).
       if is_faq_heading L heading_text then []
       else (let upto = takeWhile (\<lambda>(name, text). name \<notin> set heading_names) siblings;
                 answer_parts = map snd (filter (\<lambda>(name, text).
                     (name = py ''p'' \<or> name = py ''div'') \<and> text \<noteq> []) upto);
                 answer = normalize_text L (join_sp answer_parts);
                 question = strip_leading_number L (normalize_text L heading_text)
             in both_long question answer))
     (headings e))"

text \<open>Pattern 4: definition lists; a \<open>dt\<close> without a \<open>dd\<close> at its index is skipped.\<close>

definition dl_pairs :: "pylib \<Rightarrow> element \<Rightarrow> (pystr \<times> pystr) list" where
  "dl_pairs L e = concat (map (\<lambda>(dts, dds).
       concat (map (\<lambda>(dt, dd). both (normalize_text L dt) (normalize_text L dd)) (zip dts dds)))
     (dls e))"

text \<open>Pattern 5: the matches of the two marker patterns, paired by index.\<close>

definition markdown_pairs :: "pylib \<Rightarrow> element \<Rightarrow> (pystr \<times> pystr) list" where
  "markdown_pairs L e = concat (map (\<lambda>(q, a). both_long (normalize_text L q) (normalize_text L a))
     (zip (md_questions e) (md_answers e)))"

text \<open>A paragraph that looks like a question.\<close>

definition question_words :: "pystr list" where
  "question_words = map py [''can '', ''do '', ''does '', ''is '', ''are '', ''how '',
     ''what '', ''why '', ''when '', ''where '', ''will '', ''should '']"

definition looks_like_question :: "pylib \<Rightarrow> pystr \<Rightarrow> bool" where
  "looks_like_question L t =
     (endswith t (py ''?'') \<or> list_ex (\<lambda>w. startswith (str_lower L t) w) question_words)"

text \<open>
  The pair that a question paragraph and the paragraphs after it give: the answer is
  the run of paragraphs up to the next question.
\<close>

definition question_pair :: "pylib \<Rightarrow> pystr \<Rightarrow> pystr list \<Rightarrow> (pystr \<times> pystr) list" where
  "question_pair L p ps =
     both_long (normalize_text L p)
       (normalize_text L (join_sp (takeWhile (\<lambda>t. \<not> looks_like_question L t) ps)))"

text \<open>
  \<open>_extract_from_paragraph_list\<close>: \<open>i\<close> runs while \<open>i < len(paragraphs)\<close>; after a
  question it jumps to the next question.
\<close>

function paragraph_list_pairs :: "pylib \<Rightarrow> pystr list \<Rightarrow> (pystr \<times> pystr) list" where
  "paragraph_list_pairs L [] = []"
| "paragraph_list_pairs L (p # ps) =
     (if looks_like_question L p
      then question_pair L p ps
           @ paragraph_list_pairs L (dropWhile (\<lambda>t. \<not> looks_like_question L t) ps)
      else paragraph_list_pairs L ps)"
  by pat_completeness auto
termination
  by (relation "measure (\<lambda>(L, ps). length ps)") (auto simp: length_dropWhile_le less_Suc_eq_le)

text \<open>
  Pattern 6: the same scan, but \<open>i\<close> runs while \<open>i < len(paragraphs) - 1\<close>, so the last
  paragraph never starts a pair.
\<close>

function paragraph_pairs :: "pylib \<Rightarrow> pystr list \<Rightarrow> (pystr \<times> pystr) list" where
  "paragraph_pairs L [] = []"
| "paragraph_pairs L [p] = []"
| "paragraph_pairs L (p # p' # ps) =
     (if looks_like_question L p
      then question_pair L p (p' # ps)
           @ paragraph_pairs L (dropWhile (\<lambda>t. \<not> looks_like_question L t) (p' # ps))
      else paragraph_pairs L (p' # ps))"
  by pat_completeness auto
termination
proof (relation "measure (\<lambda>(L, ps). length ps)")
  fix L :: pylib and p p' :: pystr and ps :: "pystr list"
  have "length (dropWhile (\<lambda>t. \<not> looks_like_question L t) (p' # ps)) \<le> length (p' # ps)"
    by (rule length_dropWhile_le)
  then show "((L, dropWhile (\<lambda>t. \<not> looks_like_question L t) (p' # ps)), L, p # p' # ps)
      \<in> measure (\<lambda>(L, ps). length ps)"
    by simp
qed simp_all

definition element_pairs :: "pylib \<Rightarrow> element \<Rightarrow> (pystr \<times> pystr) list" where
  "element_pairs L e =
     details_pairs L e @ container_pairs L e @ heading_pairs L e @ dl_pairs L e
     @ markdown_pairs L e @ paragraph_pairs L (paragraphs e)"

definition extract_from_faq_element :: "pylib \<Rightarrow> element \<Rightarrow> pystr \<Rightarrow> scraper \<Rightarrow> scraper" where
  "extract_from_faq_element L e url s = add_all L (element_pairs L e) url s"

definition extract_from_paragraph_list :: "pylib \<Rightarrow> pystr list \<Rightarrow> pystr \<Rightarrow> scraper \<Rightarrow> scraper" where
  "extract_from_paragraph_list L ps url s = add_all L (paragraph_list_pairs L ps) url s"

definition extract_schema_faqs :: "pylib \<Rightarrow> page \<Rightarrow> pystr \<Rightarrow> scraper \<Rightarrow> scraper" where
  "extract_schema_faqs L pg url s =
     add_all L (concat (map (\<lambda>(name, text). both (normalize_text L name) (normalize_text L text))
       (schema_items pg))) url s"

text \<open>
  One section of \<open>_extract_faqs_from_page\<close>: the elements other than \<open>p\<close> are extracted
  as they come, the \<open>p\<close> elements are collected and scanned afterwards.
\<close>

fun paragraphs_of :: "content list \<Rightarrow> pystr list" where
  "paragraphs_of [] = []"
| "paragraphs_of (Paragraph t # cs) = t # paragraphs_of cs"
| "paragraphs_of (Element e # cs) = paragraphs_of cs"

fun extract_elements :: "pylib \<Rightarrow> content list \<Rightarrow> pystr \<Rightarrow> scraper \<Rightarrow> scraper" where
  "extract_elements L [] url s = s"
| "extract_elements L (Paragraph t # cs) url s = extract_elements L cs url s"
| "extract_elements L (Element e # cs) url s =
     extract_elements L cs url (extract_from_faq_element L e url s)"

definition extract_section :: "pylib \<Rightarrow> content list \<Rightarrow> pystr \<Rightarrow> scraper \<Rightarrow> scraper" where
  "extract_section L cs url s =
     (let s' = extract_elements L cs url s;
          all_paragraphs = paragraphs_of cs
      in if all_paragraphs \<noteq> [] then extract_from_paragraph_list L all_paragraphs url s'
         else s')"

definition extract_faqs_from_page :: "pylib \<Rightarrow> page \<Rightarrow> pystr \<Rightarrow> scraper \<Rightarrow> scraper" where
  "extract_faqs_from_page L pg url s =
     (let s' = extract_schema_faqs L pg url s
      in if sections pg = [] then s'
         else fold (\<lambda>cs. extract_section L cs url) (sections pg) s')"

section \<open>URLs\<close>

text \<open>
  \<open>urlparse\<close> is a function of Python's \<open>urllib.parse\<close>. It is written out below after
  the library's text (CPython 3.11); the two checks of the host that it leaves to other
  code are fields of \<open>pylib\<close>. The characters of a scheme are ASCII, so lowering the
  scheme is \<open>ascii_lower\<close>.
\<close>

definition scheme_char :: "nat \<Rightarrow> bool" where
  "scheme_char c = (isalpha_ascii c \<or> ascii_digit c \<or> c = 43 \<or> c = 45 \<or> c = 46)"

text \<open>The scheme: the text before the first colon, if it starts with a letter and holds scheme characters only.\<close>

definition split_scheme :: "pystr \<Rightarrow> pystr \<times> pystr" where
  "split_scheme url =
     (let head = takeWhile (\<lambda>c. c \<noteq> 58) url
      in if 58 \<in> set url \<and> (case head of [] \<Rightarrow> False | c # _ \<Rightarrow> isalpha_ascii c)
            \<and> list_all scheme_char head
         then (ascii_lower head, drop (Suc (length head)) url)
         else ([], url))"

text \<open>\<open>_splitnetloc(url, 2)\<close>: from position 2 up to the first of \<open>/\<close>, \<open>?\<close> and \<open>#\<close>.\<close>

definition netloc_end :: "nat \<Rightarrow> bool" where
  "netloc_end c = (c = 47 \<or> c = 63 \<or> c = 35)"

definition splitnetloc :: "pystr \<Rightarrow> pystr \<times> pystr" where
  "splitnetloc url =
     (takeWhile (\<lambda>c. \<not> netloc_end c) (drop 2 url), dropWhile (\<lambda>c. \<not> netloc_end c) (drop 2 url))"

text \<open>\<open>s.split(d, 1)\<close> when \<open>d\<close> occurs in \<open>s\<close>; otherwise the text is kept and the second part is empty.\<close>

definition split_once :: "nat \<Rightarrow> pystr \<Rightarrow> pystr \<times> pystr" where
  "split_once d s =
     (if d \<in> set s then (takeWhile (\<lambda>c. c \<noteq> d) s, drop (Suc (length (takeWhile (\<lambda>c. c \<noteq> d) s))) s)
      else (s, []))"

text \<open>
  The checks of \<open>urlsplit\<close> that raise \<open>ValueError\<close>: one bracket without the other, a
  bracketed host that is refused, a location that \<open>_checknetloc\<close> refuses.
\<close>

definition netloc_accepted :: "pylib \<Rightarrow> pystr \<Rightarrow> bool" where
  "netloc_accepted L loc =
     ((91 \<in> set loc) = (93 \<in> set loc)
      \<and> (if 91 \<in> set loc \<and> 93 \<in> set loc
         then bracketed_host_ok L (takeWhile (\<lambda>c. c \<noteq> 93) (drop 1 (dropWhile (\<lambda>c. c \<noteq> 91) loc)))
         else True)
      \<and> (loc = [] \<or> list_all isascii loc \<or> nfkc_ok L loc))"

text \<open>\<open>urlsplit\<close>: scheme, location, path, query and fragment; \<open>None\<close> for a \<open>ValueError\<close>.\<close>

definition urlsplit :: "pylib \<Rightarrow> pystr \<Rightarrow> (pystr \<times> pystr \<times> pystr \<times> pystr \<times> pystr) option" where
  "urlsplit L url0 =
     (let url1 = filter (\<lambda>c. c \<noteq> 9 \<and> c \<noteq> 13 \<and> c \<noteq> 10) (lstrip_by (\<lambda>c. c \<le> 32) url0);
          (sch, url2) = split_scheme url1;
          (loc, url3) = (if take 2 url2 = py ''//'' then splitnetloc url2 else ([], url2));
          (url4, frag) = split_once 35 url3;
          (url5, qry) = split_once 63 url4
      in if netloc_accepted L loc then Some (sch, loc, url5, qry, frag)
         else None)"

definition uses_params :: "pystr list" where
  "uses_params = [] # map py [''ftp'', ''hdl'', ''prospero'', ''http'', ''imap'', ''https'',
     ''shttp'', ''rtsp'', ''rtsps'', ''rtspu'', ''sip'', ''sips'', ''mms'', ''sftp'', ''tel'']"

text \<open>The last segment of a path: what follows its last slash, or all of it.\<close>

definition last_segment :: "pystr \<Rightarrow> pystr" where
  "last_segment url = rev (takeWhile (\<lambda>c. c \<noteq> 47) (rev url))"

text \<open>\<open>_splitparams\<close>, called when the path holds a semicolon: the first one on or after the last slash splits.\<close>

definition splitparams :: "pystr \<Rightarrow> pystr \<times> pystr" where
  "splitparams url =
     (let last_seg = last_segment url;
          before = take (length url - length last_seg) url
      in if 59 \<in> set last_seg
         then (before @ takeWhile (\<lambda>c. c \<noteq> 59) last_seg,
               drop (Suc (length (takeWhile (\<lambda>c. c \<noteq> 59) last_seg))) last_seg)
         else (url, []))"

record parse_result =
  scheme :: pystr
  netloc :: pystr
  path :: pystr
  params :: pystr
  query :: pystr
  fragment :: pystr

definition urlparse :: "pylib \<Rightarrow> pystr \<Rightarrow> parse_result option" where
  "urlparse L url =
     (case urlsplit L url of
        None \<Rightarrow> None
      | Some (sch, loc, url', qry, frag) \<Rightarrow>
          (let (pth, prm) = (if sch \<in> set uses_params \<and> 59 \<in> set url' then splitparams url'
                             else (url', []))
           in Some \<lparr>scheme = sch, netloc = loc, path = pth, params = prm, query = qry,
                     fragment = frag\<rparr>))"

text \<open>\<open>s.split('/')\<close>.\<close>

fun split_on :: "nat \<Rightarrow> pystr \<Rightarrow> pystr list" where
  "split_on d [] = [[]]"
| "split_on d (c # cs) =
     (if c = d then [] # split_on d cs
      else (case split_on d cs of [] \<Rightarrow> [[c]] | x # xs \<Rightarrow> (c # x) # xs))"

text \<open>
  The patterns of \<open>_is_valid_internal_url\<close>, searched with \<open>re.IGNORECASE\<close>. \<open>$\<close> is the
  end of the text or the place before a newline that ends it.
\<close>

definition search_ci :: "string \<Rightarrow> pystr \<Rightarrow> bool" where
  "search_ci lit url = (find_match (literal_ci lit) url \<noteq> None)"

definition search_ci_end :: "string \<Rightarrow> pystr \<Rightarrow> bool" where
  "search_ci_end lit url =
     (endswith (ci_fold url) (py lit) \<or> endswith (ci_fold url) (py lit @ [10]))"

definition skip_url :: "pystr \<Rightarrow> bool" where
  "skip_url url =
     (list_ex (\<lambda>lit. search_ci lit url)
        [''utm_'', ''fbclid'', ''gclid'', ''#'', ''javascript:'', ''mailto:'', ''tel:'']
      \<or> list_ex (\<lambda>lit. search_ci_end lit url)
        [''.pdf'', ''.jpg'', ''.png'', ''.gif'', ''.svg'', ''.css'', ''.js'', ''.zip'',
         ''.mp4'', ''.mp3'', ''.doc'', ''.xls''])"

text \<open>\<open>_is_valid_internal_url\<close>; \<open>None\<close> when \<open>urlparse\<close> raises.\<close>

definition is_valid_internal_url :: "pylib \<Rightarrow> scraper \<Rightarrow> pystr \<Rightarrow> bool option" where
  "is_valid_internal_url L s url =
     (if url = [] then Some False
      else (case urlparse L url of
              None \<Rightarrow> None
            | Some parsed \<Rightarrow>
                if scheme parsed \<noteq> [] \<and> scheme parsed \<noteq> py ''http'' \<and> scheme parsed \<noteq> py ''https''
                then Some False
                else if skip_url url then Some False
                else if netloc parsed \<noteq> [] \<and> netloc parsed \<noteq> domain s then Some False
                else (let path' = strip_by (\<lambda>c. c = 47) (path parsed)
                      in if path' \<noteq> [] \<and> 1 < length (split_on 47 path') then Some False
                         else Some True)))"

text \<open>
  \<open>_normalize_url\<close>, in its three steps; \<open>None\<close> when \<open>urljoin\<close> or \<open>urlparse\<close> raises.
  \<open>resolve\<close> is the first statement: a URL that does not start with \<open>http://\<close> or
  \<open>https://\<close> is joined to the base URL. \<open>normal_path\<close> is
  \<open>parsed.path.rstrip("/") or "/"\<close>, and \<open>normal_form\<close> is the text returned.
\<close>

definition resolve :: "pylib \<Rightarrow> scraper \<Rightarrow> pystr \<Rightarrow> pystr option" where
  "resolve L s url =
     (if startswith url (py ''http://'') \<or> startswith url (py ''https://'') then Some url
      else urljoin L (base_url s) url)"

definition normal_path :: "pystr \<Rightarrow> pystr" where
  "normal_path p =
     (if rstrip_by (\<lambda>c. c = 47) p = [] then py ''/'' else rstrip_by (\<lambda>c. c = 47) p)"

definition normal_form :: "parse_result \<Rightarrow> pystr" where
  "normal_form parsed = scheme parsed @ py ''://'' @ netloc parsed @ normal_path (path parsed)"

definition normalize_url :: "pylib \<Rightarrow> scraper \<Rightarrow> pystr \<Rightarrow> pystr option" where
  "normalize_url L s url =
     (case resolve L s url of
        None \<Rightarrow> None
      | Some url' \<Rightarrow>
          (case urlparse L url' of
             None \<Rightarrow> None
           | Some parsed \<Rightarrow> Some (normal_form parsed)))"

section \<open>Links and fetching\<close>

text \<open>
  \<open>_extract_links_with_text\<close>, on the anchors of a page. An exception of
  \<open>_normalize_url\<close> or \<open>_is_valid_internal_url\<close> leaves the function (\<open>None\<close>).
\<close>

fun collect_links :: "pylib \<Rightarrow> scraper \<Rightarrow> (pystr \<times> pystr) list \<Rightarrow> (pystr \<times> pystr) list option" where
  "collect_links L s [] = Some []"
| "collect_links L s ((href, text) # rest) =
     (case normalize_url L s href of
        None \<Rightarrow> None
      | Some full_url \<Rightarrow>
          (case is_valid_internal_url L s full_url of
             None \<Rightarrow> None
           | Some valid \<Rightarrow>
               (case collect_links L s rest of
                  None \<Rightarrow> None
                | Some links \<Rightarrow>
                    Some (if valid \<and> full_url \<notin> set (visited_urls s)
                          then (full_url, str_lower L text) # links else links))))"

text \<open>Deduplicate by URL, the first occurrence staying.\<close>

fun unique_links :: "pystr set \<Rightarrow> (pystr \<times> pystr) list \<Rightarrow> (pystr \<times> pystr) list" where
  "unique_links seen [] = []"
| "unique_links seen ((url, text) # links) =
     (if url \<in> seen then unique_links seen links
      else (url, text) # unique_links (insert url seen) links)"

definition extract_links_with_text :: "pylib \<Rightarrow> scraper \<Rightarrow> (pystr \<times> pystr) list \<Rightarrow> (pystr \<times> pystr) list option" where
  "extract_links_with_text L s as = map_option (unique_links {}) (collect_links L s as)"

text \<open>
  The web is a function from a URL to the page that a request for it returns, \<open>None\<close>
  when the request fails, times out or answers with a status from 400 on. Every URL is
  requested at most once in a crawl. \<open>_fetch_page_sync\<close> catches every exception, so a
  link that cannot be normalised makes the whole fetch return \<open>None\<close>.
\<close>

type_synonym web = "pystr \<Rightarrow> page option"

definition fetch_page_sync :: "pylib \<Rightarrow> web \<Rightarrow> scraper \<Rightarrow> pystr \<Rightarrow> (page \<times> (pystr \<times> pystr) list) option" where
  "fetch_page_sync L w s url =
     (case w url of
        None \<Rightarrow> None
      | Some pg \<Rightarrow>
          (case extract_links_with_text L s (anchors pg) of
             None \<Rightarrow> None
           | Some links \<Rightarrow> Some (pg, links)))"

section \<open>The crawl\<close>

text \<open>Extraction changes the records and the seen questions, nothing else.\<close>

definition same_crawl :: "scraper \<Rightarrow> scraper \<Rightarrow> bool" where
  "same_crawl s s' =
     (base_url s' = base_url s \<and> domain s' = domain s \<and> max_pages s' = max_pages s
      \<and> visited_urls s' = visited_urls s \<and> faq_page_found s' = faq_page_found s)"

lemma same_crawl_refl: "same_crawl s s"
  by (simp add: same_crawl_def)

lemma same_crawl_trans: "same_crawl s s' \<Longrightarrow> same_crawl s' s'' \<Longrightarrow> same_crawl s s''"
  by (simp add: same_crawl_def)

lemma add_faq_same_crawl: "same_crawl s (add_faq L q a url s)"
  by (simp add: add_faq_def same_crawl_def Let_def)

lemma add_all_same_crawl: "same_crawl s (add_all L pairs url s)"
proof (induction pairs arbitrary: s)
  case Nil
  show ?case by (simp add: add_all_def same_crawl_refl)
next
  case (Cons p pairs)
  obtain q a where p: "p = (q, a)" by (cases p)
  have "same_crawl (add_faq L q a url s) (add_all L pairs url (add_faq L q a url s))"
    by (rule Cons.IH)
  with add_faq_same_crawl [of s L q a url] show ?case
    unfolding p add_all_def by (auto intro: same_crawl_trans)
qed

lemma extract_elements_same_crawl: "same_crawl s (extract_elements L cs url s)"
proof (induction L cs url s rule: extract_elements.induct)
  case (1 L url s)
  show ?case by (simp add: same_crawl_refl)
next
  case (2 L t cs url s)
  then show ?case by simp
next
  case (3 L e cs url s)
  have "same_crawl s (extract_from_faq_element L e url s)"
    by (simp add: extract_from_faq_element_def add_all_same_crawl)
  with 3 show ?case by (auto intro: same_crawl_trans)
qed

lemma extract_section_same_crawl: "same_crawl s (extract_section L cs url s)"
  unfolding extract_section_def Let_def extract_from_paragraph_list_def
  by (auto intro: same_crawl_trans extract_elements_same_crawl add_all_same_crawl)

lemma fold_section_same_crawl: "same_crawl s (fold (\<lambda>cs. extract_section L cs url) secs s)"
proof (induction secs arbitrary: s)
  case Nil
  show ?case by (simp add: same_crawl_refl)
next
  case (Cons c secs)
  from extract_section_same_crawl [of s L c url] Cons.IH [of "extract_section L c url s"]
  show ?case by (auto intro: same_crawl_trans)
qed

lemma extract_faqs_from_page_same_crawl: "same_crawl s (extract_faqs_from_page L pg url s)"
  unfolding extract_faqs_from_page_def Let_def extract_schema_faqs_def
  by (auto intro: same_crawl_trans add_all_same_crawl fold_section_same_crawl)

text \<open>Marking a URL visited: \<open>self.visited_urls.add(url)\<close>.\<close>

definition visit :: "pystr \<Rightarrow> scraper \<Rightarrow> scraper" where
  "visit url s = s\<lparr>visited_urls := set_add url (visited_urls s)\<rparr>"

text \<open>One turn of the loop over the FAQ links.\<close>

definition faq_step :: "pylib \<Rightarrow> web \<Rightarrow> pystr \<times> pystr \<Rightarrow> scraper \<Rightarrow> scraper" where
  "faq_step L w link s =
     (let faq_url = fst link
      in if faq_url \<notin> set (visited_urls s)
         then (let s' = visit faq_url s
               in case fetch_page_sync L w s' faq_url of
                    None \<Rightarrow> s'
                  | Some (pg, _) \<Rightarrow> (extract_faqs_from_page L pg faq_url s')\<lparr>faq_page_found := True\<rparr>)
         else s)"

definition crawl_faq_links :: "pylib \<Rightarrow> web \<Rightarrow> (pystr \<times> pystr) list \<Rightarrow> scraper \<Rightarrow> scraper" where
  "crawl_faq_links L w faq_links s = fold (faq_step L w) faq_links s"

text \<open>
  The loop of the full crawl: \<open>while to_crawl and len(self.visited_urls) < self.max_pages\<close>.
  Each turn either shortens the queue or visits a new URL, and no more than
  \<open>max_pages\<close> URLs are visited, so the loop ends.
\<close>

function crawl_all :: "pylib \<Rightarrow> web \<Rightarrow> (pystr \<times> pystr) list \<Rightarrow> scraper \<Rightarrow> scraper" where
  "crawl_all L w [] s = s"
| "crawl_all L w ((url, t) # to_crawl) s =
     (if int (length (visited_urls s)) < max_pages s
      then (if url \<in> set (visited_urls s) then crawl_all L w to_crawl s
            else (case fetch_page_sync L w (visit url s) url of
                    None \<Rightarrow> crawl_all L w to_crawl (visit url s)
                  | Some (pg, links_with_text) \<Rightarrow>
                      crawl_all L w
                        (to_crawl @ filter (\<lambda>(l, t). l \<notin> set (visited_urls (visit url s))) links_with_text)
                        (extract_faqs_from_page L pg url (visit url s))))
      else s)"
  by pat_completeness auto
termination
proof (relation "measures [\<lambda>(L, w, q, s). nat (max_pages s - int (length (visited_urls s))),
                           \<lambda>(L, w, q, s). length q]")
  show "wf (measures [\<lambda>(L, w, q, s). nat (max_pages s - int (length (visited_urls s))),
                      \<lambda>(L, w, q, s). length q])"
    by simp
next
  fix L :: pylib and w :: web and url t :: pystr and to_crawl :: "(pystr \<times> pystr) list"
    and s :: scraper
  show "((L, w, to_crawl, s), L, w, (url, t) # to_crawl, s)
        \<in> measures [\<lambda>(L, w, q, s). nat (max_pages s - int (length (visited_urls s))),
                     \<lambda>(L, w, q, s). length q]"
    by simp
next
  fix L :: pylib and w :: web and url t :: pystr and to_crawl :: "(pystr \<times> pystr) list"
    and s :: scraper
  assume "int (length (visited_urls s)) < max_pages s" and "url \<notin> set (visited_urls s)"
  then show "((L, w, to_crawl, visit url s), L, w, (url, t) # to_crawl, s)
        \<in> measures [\<lambda>(L, w, q, s). nat (max_pages s - int (length (visited_urls s))),
                     \<lambda>(L, w, q, s). length q]"
    by (simp add: visit_def set_add_def)
next
  fix L :: pylib and w :: web and url t :: pystr and to_crawl :: "(pystr \<times> pystr) list"
    and s :: scraper and x2 :: "page \<times> (pystr \<times> pystr) list" and pg :: page
    and links :: "(pystr \<times> pystr) list"
  assume lt: "int (length (visited_urls s)) < max_pages s" and new: "url \<notin> set (visited_urls s)"
  have "same_crawl (visit url s) (extract_faqs_from_page L pg url (visit url s))"
    by (rule extract_faqs_from_page_same_crawl)
  then have "visited_urls (extract_faqs_from_page L pg url (visit url s)) = visited_urls s @ [url]"
    and "max_pages (extract_faqs_from_page L pg url (visit url s)) = max_pages s"
    using new by (simp_all add: same_crawl_def visit_def set_add_def)
  with lt show "((L, w, to_crawl @ filter (\<lambda>(l, t). l \<notin> set (visited_urls (visit url s))) links,
          extract_faqs_from_page L pg url (visit url s)), L, w, (url, t) # to_crawl, s)
        \<in> measures [\<lambda>(L, w, q, s). nat (max_pages s - int (length (visited_urls s))),
                     \<lambda>(L, w, q, s). length q]"
    by simp
qed

text \<open>
  \<open>scrape_sync\<close>, as the state it leaves, and the dictionary it returns (without the
  time stamp).
\<close>

definition scrape_sync_state :: "pylib \<Rightarrow> web \<Rightarrow> scraper \<Rightarrow> scraper" where
  "scrape_sync_state L w s0 =
     (let s1 = visit (base_url s0) s0;
          homepage_result = fetch_page_sync L w s1 (base_url s1);
          all_links_with_text = (case homepage_result of None \<Rightarrow> [] | Some (pg, links) \<Rightarrow> links);
          s2 = (case homepage_result of
                  None \<Rightarrow> s1
                | Some (pg, links) \<Rightarrow> extract_faqs_from_page L pg (base_url s1) s1);
          faq_links = filter (\<lambda>(url, text). is_faq_link L url text) all_links_with_text;
          s3 = (if faq_links \<noteq> [] then crawl_faq_links L w faq_links s2 else s2)
      in if all_faqs s3 = []
         then crawl_all L w
                (filter (\<lambda>(url, text). url \<notin> set (visited_urls s3)) all_links_with_text) s3
         else s3)"

record crawl_result =
  website :: pystr
  faqs :: "faq list"
  pagesProcessed :: nat
  totalFaqsFound :: nat
  faqPageFound :: bool

definition result_of :: "scraper \<Rightarrow> crawl_result" where
  "result_of s =
     \<lparr>website = base_url s, faqs = all_faqs s, pagesProcessed = length (visited_urls s),
      totalFaqsFound = length (all_faqs s), faqPageFound = faq_page_found s\<rparr>"

definition scrape_sync :: "pylib \<Rightarrow> web \<Rightarrow> scraper \<Rightarrow> crawl_result" where
  "scrape_sync L w s = result_of (scrape_sync_state L w s)"

text \<open>\<open>FAQScraper.__init__\<close> (\<open>None\<close> when \<open>urlparse\<close> raises) and \<open>run_scraper\<close>.\<close>

definition new_scraper :: "pylib \<Rightarrow> pystr \<Rightarrow> int \<Rightarrow> scraper option" where
  "new_scraper L website_url mp =
     (let b = rstrip_by (\<lambda>c. c = 47) website_url
      in case urlparse L b of
           None \<Rightarrow> None
         | Some parsed \<Rightarrow>
             Some \<lparr>base_url = b, domain = netloc parsed, max_pages = mp, visited_urls = [],
                   all_faqs = [], seen_questions = {}, faq_page_found = False\<rparr>)"

definition run_scraper :: "pylib \<Rightarrow> web \<Rightarrow> pystr \<Rightarrow> int \<Rightarrow> crawl_result option" where
  "run_scraper L w url mp = map_option (scrape_sync L w) (new_scraper L url mp)"

section \<open>The phases of the synchronous crawl\<close>

text \<open>
  The values that \<open>scrape_sync\<close> computes on its way, named so that statements can
  speak of them: what the fetch of the homepage returns, the links of the homepage, the
  state after extracting from the homepage, the links classified as FAQ links, and the
  state after the loop over them (\<open>scrape_sync_state_phases\<close> below shows that these are
  the values in \<open>scrape_sync_state\<close>). A URL is requested exactly when it is added to
  \<open>visited_urls\<close>, so \<open>visited_urls\<close> lists the pages fetched, in order.
\<close>

definition homepage_result :: "pylib \<Rightarrow> web \<Rightarrow> scraper \<Rightarrow> (page \<times> (pystr \<times> pystr) list) option" where
  "homepage_result L w s0 = fetch_page_sync L w (visit (base_url s0) s0) (base_url s0)"

definition homepage_links :: "pylib \<Rightarrow> web \<Rightarrow> scraper \<Rightarrow> (pystr \<times> pystr) list" where
  "homepage_links L w s0 = (case homepage_result L w s0 of None \<Rightarrow> [] | Some (pg, links) \<Rightarrow> links)"

definition after_homepage :: "pylib \<Rightarrow> web \<Rightarrow> scraper \<Rightarrow> scraper" where
  "after_homepage L w s0 =
     (case homepage_result L w s0 of
        None \<Rightarrow> visit (base_url s0) s0
      | Some (pg, links) \<Rightarrow> extract_faqs_from_page L pg (base_url s0) (visit (base_url s0) s0))"

definition faq_links :: "pylib \<Rightarrow> web \<Rightarrow> scraper \<Rightarrow> (pystr \<times> pystr) list" where
  "faq_links L w s0 = filter (\<lambda>(url, text). is_faq_link L url text) (homepage_links L w s0)"

definition after_faq_links :: "pylib \<Rightarrow> web \<Rightarrow> scraper \<Rightarrow> scraper" where
  "after_faq_links L w s0 =
     (if faq_links L w s0 \<noteq> []
      then crawl_faq_links L w (faq_links L w s0) (after_homepage L w s0)
      else after_homepage L w s0)"

section \<open>Notions for the statements\<close>

text \<open>The records that a step has appended to \<open>all_faqs\<close>.\<close>

definition added :: "scraper \<Rightarrow> scraper \<Rightarrow> faq list" where
  "added s s' = drop (length (all_faqs s)) (all_faqs s')"


text \<open>A text that the cleaning leaves as it is.\<close>

definition clean_text :: "pylib \<Rightarrow> pystr \<Rightarrow> bool" where
  "clean_text L t =
     (t \<noteq> [] \<and> strip (collapse_ws t) = t \<and> strip_by decoration t = t
      \<and> find_match (literal_ci ''subscribe newsletter'') t = None
      \<and> find_match (literal_ci ''sign up to get'') t = None
      \<and> find_match (copyright_pattern L) t = None
      \<and> find_match (literal_ci ''all rights reserved'') t = None
      \<and> find_match (literal_ci ''privacy policy'') t = None
      \<and> \<not> endswith (ci_fold t) (py ''to top'')
      \<and> strip t = t)"

section \<open>Example pages and crawls\<close>

text \<open>
  A fresh scraper for \<open>https://a.com\<close> with \<open>max_pages = 1\<close>, and library functions for
  the examples. The texts of the examples are ASCII, where \<open>str.lower\<close> lowers the
  letters \<open>A\<close> to \<open>Z\<close> and \<open>\d\<close> matches \<open>0\<close> to \<open>9\<close>; their URLs start with \<open>https://\<close>
  and have a plain host, so that neither \<open>urljoin\<close> nor a check of the host is called.
\<close>

definition demo_scraper :: scraper where
  "demo_scraper = \<lparr>base_url = py ''https://a.com'', domain = py ''a.com'', max_pages = 1,
     visited_urls = [], all_faqs = [], seen_questions = {}, faq_page_found = False\<rparr>"

definition demo_lib :: pylib where
  "demo_lib = \<lparr>str_lower = ascii_lower, re_digit = ascii_digit, urljoin = (\<lambda>base url. None),
     bracketed_host_ok = (\<lambda>host. False), nfkc_ok = (\<lambda>loc. False)\<rparr>"

text \<open>
  The same with a \<open>urljoin\<close> that returns the URL as it is. That is what Python's
  \<open>urljoin\<close> returns for a URL with a scheme of its own that is not the scheme of the
  base, such as \<open>mailto:x@y\<close> or \<open>ftp://a.com/x/\<close> with the base \<open>https://a.com\<close>.
\<close>

definition other_scheme_lib :: pylib where
  "other_scheme_lib = \<lparr>str_lower = ascii_lower, re_digit = ascii_digit,
     urljoin = (\<lambda>base url. Some url), bracketed_host_ok = (\<lambda>host. False),
     nfkc_ok = (\<lambda>loc. False)\<rparr>"

definition url_of :: "string \<Rightarrow> string \<Rightarrow> string \<Rightarrow> parse_result" where
  "url_of sch loc pth = \<lparr>scheme = py sch, netloc = py loc, path = py pth, params = [],
     query = [], fragment = []\<rparr>"

text \<open>
  An FAQ section of two paragraphs, a question and its answer; a page that holds it; a
  page without content.
\<close>

definition qa_section :: "content list" where
  "qa_section = [Paragraph (py ''What is your return policy?''),
     Paragraph (py ''You may return items within 30 days of purchase for a full refund.'')]"

definition faq_page :: page where
  "faq_page = \<lparr>anchors = [], schema_items = [], sections = [qa_section]\<rparr>"

definition empty_page :: page where
  "empty_page = \<lparr>anchors = [], schema_items = [], sections = []\<rparr>"

text \<open>
  A site whose homepage links to two pages, both classified as FAQ links; the first one
  holds the question.
\<close>

definition home_two_links :: page where
  "home_two_links = \<lparr>anchors = [(py ''https://a.com/faq'', py ''FAQ''),
       (py ''https://a.com/questions'', py ''Questions'')], schema_items = [], sections = []\<rparr>"

definition web_two_faq :: web where
  "web_two_faq url = (if url = py ''https://a.com'' then Some home_two_links
     else if url = py ''https://a.com/faq'' then Some faq_page
     else if url = py ''https://a.com/questions'' then Some empty_page
     else None)"

text \<open>A site whose homepage holds the question itself and links to one other page.\<close>

definition home_with_faqs :: page where
  "home_with_faqs = \<lparr>anchors = [(py ''https://a.com/about'', py ''About'')], schema_items = [],
     sections = [qa_section]\<rparr>"

definition web_home_only :: web where
  "web_home_only url = (if url = py ''https://a.com'' then Some home_with_faqs
     else if url = py ''https://a.com/about'' then Some empty_page
     else None)"

text \<open>A site whose homepage links to an FAQ page that cannot be fetched.\<close>

definition home_one_link :: page where
  "home_one_link = \<lparr>anchors = [(py ''https://a.com/faq'', py ''FAQ'')], schema_items = [],
     sections = []\<rparr>"

definition web_faq_down :: web where
  "web_faq_down url = (if url = py ''https://a.com'' then Some home_one_link else None)"

text \<open>A site where no request succeeds.\<close>

definition web_down :: web where
  "web_down url = None"

text \<open>The scraper after the homepage is marked visited, the record of the question, and the states in which the three crawls end.\<close>

definition visited1 :: scraper where
  "visited1 = demo_scraper\<lparr>visited_urls := [py ''https://a.com'']\<rparr>"

definition return_policy :: "pystr \<Rightarrow> faq" where
  "return_policy u = \<lparr>question = py ''What is your return policy?'',
     answer = py ''You may return items within 30 days of purchase for a full refund.'',
     sourceUrl = u\<rparr>"

definition two_faq_final :: scraper where
  "two_faq_final = demo_scraper\<lparr>
     visited_urls := [py ''https://a.com'', py ''https://a.com/faq'', py ''https://a.com/questions''],
     all_faqs := [return_policy (py ''https://a.com/faq'')],
     seen_questions := {py ''what is your return policy?''},
     faq_page_found := True\<rparr>"

definition home_only_final :: scraper where
  "home_only_final = demo_scraper\<lparr>visited_urls := [py ''https://a.com''],
     all_faqs := [return_policy (py ''https://a.com'')],
     seen_questions := {py ''what is your return policy?''}\<rparr>"

definition faq_down_final :: scraper where
  "faq_down_final = demo_scraper\<lparr>visited_urls := [py ''https://a.com'', py ''https://a.com/faq'']\<rparr>"

text \<open>An element with one \<open>details\<close> whose answer is four characters long, and the record it gives.\<close>

definition accordion :: element where
  "accordion = \<lparr>details = [(Some (py ''What is your return policy?''), [py ''Yes.''])],
     qa_containers = [], headings = [], dls = [], md_questions = [], md_answers = [],
     paragraphs = []\<rparr>"

text \<open>The same question and answer in a class-based container and in a definition list.\<close>

definition qa_container :: element where
  "qa_container = \<lparr>details = [],
     qa_containers = [(Some (py ''What is your return policy?''), Some (py ''Yes.''))],
     headings = [], dls = [], md_questions = [], md_answers = [], paragraphs = []\<rparr>"

definition definition_list :: element where
  "definition_list = \<lparr>details = [], qa_containers = [], headings = [],
     dls = [([py ''What is your return policy?''], [py ''Yes.''])],
     md_questions = [], md_answers = [], paragraphs = []\<rparr>"

definition short_answer :: "pystr \<Rightarrow> faq" where
  "short_answer u = \<lparr>question = py ''What is your return policy?'', answer = py ''Yes.'',
     sourceUrl = u\<rparr>"

text \<open>The definitions that evaluating a text, a character or a URL unfolds.\<close>

lemma demo_lib_fields:
  "str_lower demo_lib = ascii_lower" "re_digit demo_lib = ascii_digit"
  "urljoin demo_lib = (\<lambda>base url. None)" "bracketed_host_ok demo_lib = (\<lambda>host. False)"
  "nfkc_ok demo_lib = (\<lambda>loc. False)"
  by (simp_all add: demo_lib_def)

lemmas char_defs = isascii_def isupper_ascii_def islower_ascii_def isalpha_ascii_def
  ascii_digit_def isspace_def ascii_lower_cp_def ascii_lower_def ci_lower_def ci_fold_def
  scheme_char_def netloc_end_def ordinal_sep_def decoration_def demo_lib_fields

lemmas str_defs = py_def startswith_def endswith_def lstrip_by_def rstrip_by_def strip_by_def
  strip_def

lemmas url_defs = urlparse_def urlsplit_def split_scheme_def splitnetloc_def split_once_def
  netloc_accepted_def uses_params_def splitparams_def last_segment_def resolve_def
  normal_path_def normal_form_def

section \<open>The English heuristic decides by the share of non-ASCII characters\<close>

lemma is_english_nonempty:
  "text \<noteq> [] \<Longrightarrow> (\<not> is_english text) =
     (ascii_letters text + non_ascii text \<noteq> 0
      \<and> 3 * (ascii_letters text + non_ascii text) \<le> 10 * non_ascii text)"
  by (auto simp: is_english_def Let_def)

lemma add_faq_not_english:
  "\<not> is_english q \<or> \<not> is_english a \<Longrightarrow> add_faq L q a url s = s"
  by (auto simp: add_faq_def)

lemma all_non_ascii_not_english:
  "list_all (\<lambda>c. \<not> isascii c) text \<Longrightarrow> \<not> is_english text"
proof (cases "text = []")
  case True
  then show ?thesis by (simp add: is_english_def)
next
  case False
  assume "list_all (\<lambda>c. \<not> isascii c) text"
  then have f: "filter (\<lambda>c. \<not> isascii c) text = text"
    and g: "filter (\<lambda>c. isascii c \<and> isalpha_ascii c) text = []"
    by (auto simp: list_all_iff filter_empty_conv)
  from False have "0 < length text" by simp
  with False show ?thesis
    by (simp add: is_english_def Let_def ascii_letters_def non_ascii_def f g)
qed

text \<open>
  C6, as the code has it. A text that is not empty is classified as not English exactly
  when it has a letter or a non-ASCII character and the non-ASCII characters are at least
  three tenths of the ASCII letters and non-ASCII characters together. \<open>_add_faq\<close> leaves
  the state unchanged when the question or the answer is not English; so a question
  of non-ASCII characters only is never stored. A text that is not empty and has neither
  an ASCII letter nor a non-ASCII character is English. The empty text is not English.
\<close>

theorem is_english_threshold:
  "(text \<noteq> [] \<longrightarrow>
      (\<not> is_english text) =
        (ascii_letters text + non_ascii text \<noteq> 0
         \<and> 3 * (ascii_letters text + non_ascii text) \<le> 10 * non_ascii text))
   \<and> (\<not> is_english text \<longrightarrow> add_faq L text a url s = s \<and> add_faq L q text url s = s)
   \<and> (list_all (\<lambda>c. \<not> isascii c) text \<longrightarrow> add_faq L text a url s = s)
   \<and> (text \<noteq> [] \<and> ascii_letters text = 0 \<and> non_ascii text = 0 \<longrightarrow> is_english text)
   \<and> \<not> is_english []"
proof -
  have "\<not> is_english []" by (simp add: is_english_def)
  moreover have "text \<noteq> [] \<and> ascii_letters text = 0 \<and> non_ascii text = 0 \<longrightarrow> is_english text"
    by (simp add: is_english_def)
  ultimately show ?thesis
    using is_english_nonempty [of "text"] add_faq_not_english all_non_ascii_not_english [of "text"]
    by simp
qed

text \<open>
  The theorem at two texts: two CJK characters, which are rejected, and \<open>1 + 1 = ?\<close>,
  which has no letter at all and passes.
\<close>

theorem is_english_threshold_witness:
  "[20013, 25991] \<noteq> ([] :: pystr) \<and> list_all (\<lambda>c. \<not> isascii c) [20013, 25991]
   \<and> \<not> is_english [20013, 25991]
   \<and> add_faq demo_lib [20013, 25991] (py ''An answer.'') (py ''https://a.com'') demo_scraper = demo_scraper
   \<and> py ''1 + 1 = ?'' \<noteq> [] \<and> ascii_letters (py ''1 + 1 = ?'') = 0 \<and> non_ascii (py ''1 + 1 = ?'') = 0
   \<and> is_english (py ''1 + 1 = ?'')"
proof -
  have a: "list_all (\<lambda>c. \<not> isascii c) [20013, 25991]" by (simp add: isascii_def)
  have b: "ascii_letters (py ''1 + 1 = ?'') = 0 \<and> non_ascii (py ''1 + 1 = ?'') = 0"
    by (simp add: ascii_letters_def non_ascii_def py_def isascii_def isalpha_ascii_def
        isupper_ascii_def islower_ascii_def)
  have c: "py ''1 + 1 = ?'' \<noteq> []" by (simp add: py_def)
  from is_english_threshold [of "[20013, 25991]" demo_lib "py ''An answer.''" "py ''https://a.com''"
      demo_scraper "[]"] a
  have "\<not> is_english [20013, 25991]
    \<and> add_faq demo_lib [20013, 25991] (py ''An answer.'') (py ''https://a.com'') demo_scraper = demo_scraper"
    using all_non_ascii_not_english by blast
  moreover from is_english_threshold [of "py ''1 + 1 = ?''" demo_lib "[]" "[]" demo_scraper "[]"] b c
  have "is_english (py ''1 + 1 = ?'')" by blast
  ultimately show ?thesis using a b c by simp
qed

text \<open>
  The empty text has no ASCII letter and no non-ASCII character, and it is classified as
  not English: the source returns \<open>False\<close> for it before counting.
\<close>

theorem is_english_empty_counterexample:
  "ascii_letters [] = 0 \<and> non_ascii [] = 0 \<and> \<not> is_english []"
  by (simp add: ascii_letters_def non_ascii_def is_english_def)

section \<open>A leading b is taken for a string prefix\<close>

lemma strip_string_prefix_b:
  "c = 98 \<or> c = 66 \<Longrightarrow>
   strip_string_prefix (c # rest) =
     (case rest of [] \<Rightarrow> [] | d # r \<Rightarrow> if d = 34 \<or> d = 39 then r else rest)"
  by (auto simp: strip_string_prefix_def split: list.splits)

text \<open>
  C9. When the question starts with \<open>b\<close> or \<open>B\<close>, \<open>_add_faq\<close> works on the rest of the
  question, less a quote that follows at once: the question it stores and the key it
  puts into \<open>seen_questions\<close> are computed from that rest, by the same steps as for any
  question (stripping, removing a leading number with the library's \<open>\d\<close>, and for the
  key the library's \<open>str.lower\<close>). The English test alone reads the question as it came.
\<close>

theorem add_faq_drops_leading_b:
  "c = 98 \<or> c = 66 \<Longrightarrow>
   (let rest' = (case rest of [] \<Rightarrow> [] | d # r \<Rightarrow> if d = 34 \<or> d = 39 then r else rest);
        q' = strip (strip_ordinal L (strip rest'));
        k = strip (str_lower L q')
    in add_faq L (c # rest) a url s =
         (if is_english (c # rest) \<and> is_english a
             \<and> \<not> list_ex (\<lambda>p. contains p k) skip_patterns
             \<and> k \<noteq> [] \<and> k \<notin> seen_questions s \<and> 5 < length q'
          then s\<lparr>seen_questions := insert k (seen_questions s),
                 all_faqs := all_faqs s @ [\<lparr>question = q', answer = a, sourceUrl = url\<rparr>]\<rparr>
          else s))"
  by (simp add: add_faq_def clean_question_def question_key_def strip_string_prefix_b Let_def)

text \<open>The question \<open>Billing questions?\<close> is stored as \<open>illing questions?\<close>.\<close>

theorem add_faq_drops_leading_b_witness:
  "((66::nat) = 98 \<or> (66::nat) = 66)
   \<and> add_faq demo_lib (py ''Billing questions?'') (py ''Yes.'') (py ''https://a.com'') demo_scraper =
       demo_scraper\<lparr>seen_questions := {py ''illing questions?''},
         all_faqs := [\<lparr>question = py ''illing questions?'', answer = py ''Yes.'',
                       sourceUrl = py ''https://a.com''\<rparr>]\<rparr>"
proof -
  have h: "(66::nat) = 98 \<or> (66::nat) = 66" by simp
  have e: "py ''Billing questions?'' = 66 # py ''illing questions?''" by (simp add: py_def)
  have q: "strip (strip_ordinal demo_lib (strip (py ''illing questions?''))) = py ''illing questions?''"
    by (simp add: str_defs strip_ordinal_def char_defs)
  have k: "strip (str_lower demo_lib (py ''illing questions?'')) = py ''illing questions?''"
    by (simp add: str_defs char_defs)
  have en: "is_english (py ''Billing questions?'') \<and> is_english (py ''Yes.'')"
    by (simp add: is_english_def ascii_letters_def non_ascii_def py_def isascii_def
        isalpha_ascii_def isupper_ascii_def islower_ascii_def Let_def)
  have sk: "\<not> list_ex (\<lambda>p. contains p (py ''illing questions?'')) skip_patterns"
    by (simp add: skip_patterns_def py_def startswith_def)
  have r: "(case py ''illing questions?'' of [] \<Rightarrow> []
            | d # r \<Rightarrow> if d = 34 \<or> d = 39 then r else py ''illing questions?'')
           = py ''illing questions?''"
    by (simp add: py_def)
  have ne: "py ''illing questions?'' \<noteq> [] \<and> 5 < length (py ''illing questions?'')"
    by (simp add: py_def)
  from add_faq_drops_leading_b [OF h, of "py ''illing questions?''" demo_lib "py ''Yes.''"
      "py ''https://a.com''" demo_scraper]
  show ?thesis
    unfolding Let_def r q k e [symmetric]
    using en sk ne h by (simp add: demo_scraper_def)
qed

section \<open>The validator caps the depth at one segment\<close>

lemma split_on_not_Nil: "split_on d s \<noteq> []"
  by (induction s) (auto split: list.splits)

lemma split_on_snoc: "split_on d (s @ [d]) = split_on d s @ [[]]"
  by (induction s) (auto split: list.splits simp: split_on_not_Nil)

lemma segments_dropWhile:
  "filter (\<lambda>seg. seg \<noteq> []) (split_on d (dropWhile (\<lambda>c. c = d) s)) = filter (\<lambda>seg. seg \<noteq> []) (split_on d s)"
  by (induction s) auto

lemma rstrip_by_snoc: "rstrip_by P (s @ [c]) = (if P c then rstrip_by P s else s @ [c])"
  by (simp add: rstrip_by_def)

lemma segments_rstrip:
  "filter (\<lambda>seg. seg \<noteq> []) (split_on d (rstrip_by (\<lambda>c. c = d) s)) = filter (\<lambda>seg. seg \<noteq> []) (split_on d s)"
proof (induction s rule: rev_induct)
  case Nil
  show ?case by (simp add: rstrip_by_def)
next
  case (snoc c s)
  then show ?case by (simp add: rstrip_by_snoc split_on_snoc)
qed

lemma segments_strip:
  "filter (\<lambda>seg. seg \<noteq> []) (split_on d (strip_by (\<lambda>c. c = d) s)) = filter (\<lambda>seg. seg \<noteq> []) (split_on d s)"
  by (simp add: strip_by_def lstrip_by_def segments_rstrip segments_dropWhile)

lemma hd_split_on: "s \<noteq> [] \<Longrightarrow> hd s \<noteq> d \<Longrightarrow> hd (split_on d s) \<noteq> []"
  by (cases s) (auto split: list.splits)

lemma last_split_on: "s \<noteq> [] \<Longrightarrow> last s \<noteq> d \<Longrightarrow> last (split_on d s) \<noteq> []"
proof (induction s)
  case Nil
  then show ?case by simp
next
  case (Cons c s)
  show ?case
  proof (cases "s = []")
    case True
    with Cons.prems show ?thesis by simp
  next
    case False
    with Cons have "last (split_on d s) \<noteq> []" by simp
    moreover obtain x xs where "split_on d s = x # xs"
      using split_on_not_Nil [of d s] by (cases "split_on d s") auto
    ultimately show ?thesis by (auto split: if_splits)
  qed
qed

lemma two_nonempty:
  "1 < length xs \<Longrightarrow> hd xs \<noteq> [] \<Longrightarrow> last xs \<noteq> [] \<Longrightarrow> 1 < length (filter (\<lambda>x. x \<noteq> []) xs)"
proof (cases xs)
  case Nil
  assume "1 < length xs" with Nil show ?thesis by simp
next
  case (Cons x ys)
  assume a: "1 < length xs" "hd xs \<noteq> []" "last xs \<noteq> []"
  with Cons have "ys \<noteq> []" and "last ys \<noteq> []" and "x \<noteq> []" by auto
  then have "last ys \<in> set (filter (\<lambda>x. x \<noteq> []) ys)" by simp
  then have "0 < length (filter (\<lambda>x. x \<noteq> []) ys)" by (metis length_pos_if_in_set)
  with Cons \<open>x \<noteq> []\<close> show ?thesis by simp
qed

lemma rstrip_by_decomp: "rstrip_by P s @ rev (takeWhile P (rev s)) = s"
proof -
  have "rev (takeWhile P (rev s) @ dropWhile P (rev s)) = s" by simp
  then show ?thesis unfolding rev_append by (simp add: rstrip_by_def)
qed

lemma strip_by_hd:
  assumes "strip_by P s \<noteq> []"
  shows "\<not> P (hd (strip_by P s))"
proof -
  let ?t = "dropWhile P s"
  have t: "?t \<noteq> []"
  proof
    assume e: "?t = []"
    have "strip_by P s = rev (dropWhile P (rev ?t))"
      by (simp only: strip_by_def lstrip_by_def rstrip_by_def)
    then have "strip_by P s = []" unfolding e by simp
    with assms show False by simp
  qed
  then have h: "\<not> P (hd ?t)" by (rule hd_dropWhile)
  have "hd (rstrip_by P ?t @ rev (takeWhile P (rev ?t))) = hd (rstrip_by P ?t)"
    using assms by (simp add: strip_by_def lstrip_by_def)
  then have "hd (rstrip_by P ?t) = hd ?t" by (simp add: rstrip_by_decomp)
  with h show ?thesis by (simp add: strip_by_def lstrip_by_def)
qed

lemma strip_by_last:
  assumes "strip_by P s \<noteq> []"
  shows "\<not> P (last (strip_by P s))"
proof -
  let ?r = "dropWhile P (rev (dropWhile P s))"
  from assms have r: "?r \<noteq> []" by (simp add: strip_by_def lstrip_by_def rstrip_by_def)
  then have "\<not> P (hd ?r)" by (rule hd_dropWhile)
  with r show ?thesis by (simp add: strip_by_def lstrip_by_def rstrip_by_def last_rev)
qed

lemma depth_rule:
  "(strip_by (\<lambda>c. c = d) p \<noteq> [] \<and> 1 < length (split_on d (strip_by (\<lambda>c. c = d) p)))
   = (1 < length (filter (\<lambda>seg. seg \<noteq> []) (split_on d p)))"
proof -
  let ?p = "strip_by (\<lambda>c. c = d) p"
  have eq: "filter (\<lambda>seg. seg \<noteq> []) (split_on d ?p) = filter (\<lambda>seg. seg \<noteq> []) (split_on d p)"
    by (rule segments_strip)
  show ?thesis
  proof
    assume a: "?p \<noteq> [] \<and> 1 < length (split_on d ?p)"
    then have "hd ?p \<noteq> d" and "last ?p \<noteq> d"
      using strip_by_hd [of "\<lambda>c. c = d" p] strip_by_last [of "\<lambda>c. c = d" p] by auto
    with a have "hd (split_on d ?p) \<noteq> []" and "last (split_on d ?p) \<noteq> []"
      using hd_split_on [of ?p d] last_split_on [of ?p d] by blast+
    with a have "1 < length (filter (\<lambda>seg. seg \<noteq> []) (split_on d ?p))"
      using two_nonempty [of "split_on d ?p"] by blast
    with eq show "1 < length (filter (\<lambda>seg. seg \<noteq> []) (split_on d p))" by simp
  next
    assume "1 < length (filter (\<lambda>seg. seg \<noteq> []) (split_on d p))"
    with eq have b: "1 < length (filter (\<lambda>seg. seg \<noteq> []) (split_on d ?p))" by simp
    have "length (filter (\<lambda>seg. seg \<noteq> []) (split_on d ?p)) \<le> length (split_on d ?p)"
      by (rule length_filter_le)
    with b have "1 < length (split_on d ?p)" by (rule less_le_trans)
    moreover from b have "?p \<noteq> []" by auto
    ultimately show "?p \<noteq> [] \<and> 1 < length (split_on d ?p)" by simp
  qed
qed

text \<open>
  C8. For every domain and every URL that \<open>urlparse\<close> accepts: when the path has more
  than one non-empty segment, \<open>_is_valid_internal_url\<close> returns \<open>False\<close>; when it has at
  most one, the depth rule rejects nothing, and the answer is that of the tests on the
  scheme, the skip patterns and the host.
\<close>

theorem depth_capped_at_one_segment:
  "urlparse L url = Some parsed \<Longrightarrow>
   (1 < length (filter (\<lambda>seg. seg \<noteq> []) (split_on 47 (path parsed)))
      \<longrightarrow> is_valid_internal_url L s url = Some False)
   \<and> (url \<noteq> [] \<and> length (filter (\<lambda>seg. seg \<noteq> []) (split_on 47 (path parsed))) \<le> 1
      \<longrightarrow> is_valid_internal_url L s url =
            Some (\<not> (scheme parsed \<noteq> [] \<and> scheme parsed \<noteq> py ''http'' \<and> scheme parsed \<noteq> py ''https'')
                  \<and> \<not> skip_url url
                  \<and> \<not> (netloc parsed \<noteq> [] \<and> netloc parsed \<noteq> domain s)))"
proof -
  assume u: "urlparse L url = Some parsed"
  have nonempty: "1 < length (filter (\<lambda>seg. seg \<noteq> []) (split_on 47 (path parsed))) \<Longrightarrow> url \<noteq> []"
  proof
    assume "1 < length (filter (\<lambda>seg. seg \<noteq> []) (split_on 47 (path parsed)))" and "url = []"
    with u have "path parsed = []"
      by (auto simp: urlparse_def urlsplit_def lstrip_by_def split_scheme_def split_once_def
          py_def split: if_splits)
    with \<open>1 < length (filter (\<lambda>seg. seg \<noteq> []) (split_on 47 (path parsed)))\<close>
    show False by simp
  qed
  show ?thesis
    using u nonempty depth_rule [of 47 "path parsed"]
    by (auto simp: is_valid_internal_url_def Let_def)
qed


text \<open>\<open>/support/billing\<close> is rejected, \<open>/support\<close> is accepted.\<close>

theorem depth_capped_at_one_segment_witness:
  "urlparse demo_lib (py ''https://a.com/support/billing'')
     = Some (url_of ''https'' ''a.com'' ''/support/billing'')
   \<and> 1 < length (filter (\<lambda>seg. seg \<noteq> []) (split_on 47 (py ''/support/billing'')))
   \<and> is_valid_internal_url demo_lib demo_scraper (py ''https://a.com/support/billing'') = Some False
   \<and> urlparse demo_lib (py ''https://a.com/support'') = Some (url_of ''https'' ''a.com'' ''/support'')
   \<and> py ''https://a.com/support'' \<noteq> []
   \<and> length (filter (\<lambda>seg. seg \<noteq> []) (split_on 47 (py ''/support''))) \<le> 1
   \<and> is_valid_internal_url demo_lib demo_scraper (py ''https://a.com/support'') = Some True"
proof -
  have p2: "urlparse demo_lib (py ''https://a.com/support/billing'')
     = Some (url_of ''https'' ''a.com'' ''/support/billing'')"
    by (simp add: url_defs str_defs char_defs demo_lib_def url_of_def)
  have n2: "1 < length (filter (\<lambda>seg. seg \<noteq> []) (split_on 47 (py ''/support/billing'')))"
    by (simp add: py_def)
  have p1: "urlparse demo_lib (py ''https://a.com/support'') = Some (url_of ''https'' ''a.com'' ''/support'')"
    by (simp add: url_defs str_defs char_defs demo_lib_def url_of_def)
  have n1: "length (filter (\<lambda>seg. seg \<noteq> []) (split_on 47 (py ''/support''))) \<le> 1"
    by (simp add: py_def)
  have e: "py ''https://a.com/support'' \<noteq> []" by (simp add: py_def)
  have sk: "\<not> skip_url (py ''https://a.com/support'')"
    by (simp add: skip_url_def search_ci_def search_ci_end_def literal_ci_def str_defs char_defs)
  have sel: "path (url_of ''https'' ''a.com'' ''/support/billing'') = py ''/support/billing''"
    "path (url_of ''https'' ''a.com'' ''/support'') = py ''/support''"
    "scheme (url_of ''https'' ''a.com'' ''/support'') = py ''https''"
    "netloc (url_of ''https'' ''a.com'' ''/support'') = py ''a.com''"
    by (simp_all add: url_of_def)
  have d: "domain demo_scraper = py ''a.com''" by (simp add: demo_scraper_def)
  from depth_capped_at_one_segment [OF p2, of demo_scraper] n2
  have r2: "is_valid_internal_url demo_lib demo_scraper (py ''https://a.com/support/billing'') = Some False"
    by (simp add: sel)
  from depth_capped_at_one_segment [OF p1, of demo_scraper] n1 e sk
  have r1: "is_valid_internal_url demo_lib demo_scraper (py ''https://a.com/support'') = Some True"
    by (simp add: sel d)
  from p2 n2 r2 p1 e n1 r1 show ?thesis by blast
qed

section \<open>Normalising a URL twice\<close>

text \<open>The scheme that \<open>urlparse\<close> finds, if any, is a scheme again when it is read back.\<close>

lemma ascii_lower_cp_colon: "(ascii_lower_cp c = 58) = (c = 58)"
  by (auto simp: ascii_lower_cp_def isupper_ascii_def)

lemma ascii_lower_cp_alpha: "isalpha_ascii (ascii_lower_cp c) = isalpha_ascii c"
  by (auto simp: ascii_lower_cp_def isalpha_ascii_def isupper_ascii_def islower_ascii_def)

lemma ascii_lower_cp_scheme_char: "scheme_char (ascii_lower_cp c) = scheme_char c"
  by (auto simp: ascii_lower_cp_def scheme_char_def isalpha_ascii_def isupper_ascii_def
      islower_ascii_def ascii_digit_def)

lemma ascii_lower_cp_idem: "ascii_lower_cp (ascii_lower_cp c) = ascii_lower_cp c"
  by (auto simp: ascii_lower_cp_def isupper_ascii_def)

lemma split_scheme_rest: "set (snd (split_scheme url)) \<subseteq> set url"
  by (auto simp: split_scheme_def Let_def dest: in_set_dropD)

lemma split_scheme_parts:
  assumes "fst (split_scheme url) \<noteq> []"
  shows "58 \<notin> set (fst (split_scheme url))"
    and "isalpha_ascii (hd (fst (split_scheme url)))"
    and "list_all scheme_char (fst (split_scheme url))"
    and "ascii_lower (fst (split_scheme url)) = fst (split_scheme url)"
proof -
  define head where "head = takeWhile (\<lambda>c. c \<noteq> 58) url"
  from assms have sch: "fst (split_scheme url) = ascii_lower head"
    and ok: "(case head of [] \<Rightarrow> False | c # _ \<Rightarrow> isalpha_ascii c)" "list_all scheme_char head"
    unfolding split_scheme_def Let_def head_def by (auto split: if_splits)
  have "58 \<notin> set head" unfolding head_def by (auto dest: set_takeWhileD)
  have "58 \<notin> ascii_lower_cp ` set head"
  proof
    assume "58 \<in> ascii_lower_cp ` set head"
    then obtain x where x: "x \<in> set head" "ascii_lower_cp x = 58" by auto
    then have "x = 58" by (simp add: ascii_lower_cp_colon)
    with x \<open>58 \<notin> set head\<close> show False by simp
  qed
  then show "58 \<notin> set (fst (split_scheme url))"
    unfolding sch ascii_lower_def by simp
  from ok(1) show "isalpha_ascii (hd (fst (split_scheme url)))"
    unfolding sch ascii_lower_def by (cases head) (auto simp: ascii_lower_cp_alpha)
  from ok(2) show "list_all scheme_char (fst (split_scheme url))"
    unfolding sch ascii_lower_def by (simp add: list_all_iff ascii_lower_cp_scheme_char)
  show "ascii_lower (fst (split_scheme url)) = fst (split_scheme url)"
    unfolding sch ascii_lower_def by (simp add: ascii_lower_cp_idem)
qed

lemma split_scheme_normal:
  assumes "sch \<noteq> []" and "58 \<notin> set sch" and "isalpha_ascii (hd sch)"
    and "list_all scheme_char sch" and "ascii_lower sch = sch"
  shows "split_scheme (sch @ py ''://'' @ r) = (sch, py ''//'' @ r)"
proof -
  have c: "py ''://'' @ r = 58 # py ''//'' @ r" by (simp add: py_def)
  from assms(2) have tw: "takeWhile (\<lambda>c. c \<noteq> 58) (sch @ 58 # py ''//'' @ r) = sch"
    by (subst takeWhile_append2) auto
  from assms(1,3) have hd: "(case sch of [] \<Rightarrow> False | c # _ \<Rightarrow> isalpha_ascii c)"
    by (cases sch) auto
  show ?thesis
    unfolding split_scheme_def c Let_def tw using hd assms(4,5) by simp
qed

lemma scheme_char_not_space: "scheme_char c \<Longrightarrow> 32 < c"
  by (auto simp: scheme_char_def isalpha_ascii_def isupper_ascii_def islower_ascii_def
      ascii_digit_def)

lemma normal_form_clean:
  assumes "sch \<noteq> []" and "list_all scheme_char sch"
    and "\<forall>c\<in>set r. c \<noteq> 9 \<and> c \<noteq> 13 \<and> c \<noteq> 10"
  shows "filter (\<lambda>c. c \<noteq> 9 \<and> c \<noteq> 13 \<and> c \<noteq> 10) (lstrip_by (\<lambda>c. c \<le> 32) (sch @ py ''://'' @ r))
         = sch @ py ''://'' @ r"
proof -
  from assms(1) obtain a sch' where s: "sch = a # sch'" by (cases sch) auto
  with assms(2) have "32 < a" by (simp add: scheme_char_not_space)
  then have l: "lstrip_by (\<lambda>c. c \<le> 32) (sch @ py ''://'' @ r) = sch @ py ''://'' @ r"
    unfolding s lstrip_by_def by simp
  from assms(2) have "\<forall>c\<in>set sch. 32 < c" by (auto simp: list_all_iff scheme_char_not_space)
  then have "\<forall>c\<in>set sch. c \<noteq> 9 \<and> c \<noteq> 13 \<and> c \<noteq> 10" by auto
  with assms(3) have "\<forall>c\<in>set (sch @ py ''://'' @ r). c \<noteq> 9 \<and> c \<noteq> 13 \<and> c \<noteq> 10"
    by (auto simp: py_def)
  then show ?thesis unfolding l by (simp add: filter_id_conv)
qed

lemma splitnetloc_slashes:
  "take 2 (py ''//'' @ r) = py ''//''"
  "splitnetloc (py ''//'' @ r) = (takeWhile (\<lambda>c. \<not> netloc_end c) r, dropWhile (\<lambda>c. \<not> netloc_end c) r)"
  by (simp_all add: splitnetloc_def py_def)

lemma split_once_fst_prefix: "prefix (fst (split_once d s)) s"
  by (simp add: split_once_def takeWhile_is_prefix)

lemma split_once_fst_free: "d \<notin> set (fst (split_once d s))"
proof (cases "d \<in> set s")
  case True
  then show ?thesis by (auto simp: split_once_def dest: set_takeWhileD)
next
  case False
  then show ?thesis by (simp add: split_once_def)
qed

lemma splitparams_fst_prefix: "prefix (fst (splitparams url)) url"
proof -
  define seg where "seg = rev (takeWhile (\<lambda>c. c \<noteq> 47) (rev url))"
  define d where "d = rev (dropWhile (\<lambda>c. c \<noteq> 47) (rev url))"
  have "rev (takeWhile (\<lambda>c. c \<noteq> 47) (rev url) @ dropWhile (\<lambda>c. c \<noteq> 47) (rev url)) = url"
    by simp
  then have u: "url = d @ seg" unfolding rev_append by (simp add: d_def seg_def)
  then have "length url - length seg = length d" by simp
  with u have before: "take (length url - length seg) url = d" by simp
  have "prefix (d @ takeWhile (\<lambda>c. c \<noteq> 59) seg) (d @ seg)"
    by (simp add: takeWhile_is_prefix)
  with u have "prefix (d @ takeWhile (\<lambda>c. c \<noteq> 59) seg) url" by simp
  then show ?thesis
    unfolding splitparams_def last_segment_def Let_def seg_def [symmetric] before by simp
qed

text \<open>The parts that \<open>urlparse\<close> returns, for any URL.\<close>

lemma urlparse_parts:
  assumes parse: "urlparse L url = Some parsed"
  shows "scheme parsed \<noteq> [] \<longrightarrow> 58 \<notin> set (scheme parsed) \<and> isalpha_ascii (hd (scheme parsed))
           \<and> list_all scheme_char (scheme parsed) \<and> ascii_lower (scheme parsed) = scheme parsed"
    and "\<forall>c\<in>set (netloc parsed). \<not> netloc_end c \<and> c \<noteq> 9 \<and> c \<noteq> 13 \<and> c \<noteq> 10"
    and "netloc_accepted L (netloc parsed)"
    and "\<forall>c\<in>set (path parsed). c \<noteq> 35 \<and> c \<noteq> 63 \<and> c \<noteq> 9 \<and> c \<noteq> 13 \<and> c \<noteq> 10"
proof -
  define url1 where "url1 = filter (\<lambda>c. c \<noteq> 9 \<and> c \<noteq> 13 \<and> c \<noteq> 10) (lstrip_by (\<lambda>c. c \<le> 32) url)"
  define sch where "sch = fst (split_scheme url1)"
  define url2 where "url2 = snd (split_scheme url1)"
  define loc where "loc = (if take 2 url2 = py ''//'' then fst (splitnetloc url2) else [])"
  define url3 where "url3 = (if take 2 url2 = py ''//'' then snd (splitnetloc url2) else url2)"
  define url4 where "url4 = fst (split_once 35 url3)"
  define url5 where "url5 = fst (split_once 63 url4)"
  define pth where "pth = (if sch \<in> set uses_params \<and> 59 \<in> set url5 then fst (splitparams url5) else url5)"
  have split: "urlsplit L url =
      (if netloc_accepted L loc
       then Some (sch, loc, url5, snd (split_once 63 url4), snd (split_once 35 url3)) else None)"
    by (simp add: urlsplit_def Let_def case_prod_beta url1_def sch_def url2_def loc_def url3_def
        url4_def url5_def)
  from parse have acc: "netloc_accepted L loc"
    unfolding urlparse_def split by (simp split: if_splits)
  from parse have parsed: "scheme parsed = sch" "netloc parsed = loc" "path parsed = pth"
    unfolding urlparse_def split pth_def using acc
    by (auto simp: Let_def split: prod.splits if_splits)
  show "scheme parsed \<noteq> [] \<longrightarrow> 58 \<notin> set (scheme parsed) \<and> isalpha_ascii (hd (scheme parsed))
           \<and> list_all scheme_char (scheme parsed) \<and> ascii_lower (scheme parsed) = scheme parsed"
    unfolding parsed sch_def using split_scheme_parts [of url1] by blast
  show "netloc_accepted L (netloc parsed)" using acc parsed by simp
  have c1: "\<forall>c\<in>set url1. c \<noteq> 9 \<and> c \<noteq> 13 \<and> c \<noteq> 10" by (simp add: url1_def)
  have "set url2 \<subseteq> set url1" unfolding url2_def by (rule split_scheme_rest)
  with c1 have c2: "\<forall>c\<in>set url2. c \<noteq> 9 \<and> c \<noteq> 13 \<and> c \<noteq> 10" by blast
  have "set loc \<subseteq> set url2"
    unfolding loc_def splitnetloc_def by (auto dest: set_takeWhileD in_set_dropD)
  moreover have "\<forall>c\<in>set loc. \<not> netloc_end c"
    unfolding loc_def splitnetloc_def by (auto dest: set_takeWhileD)
  ultimately show "\<forall>c\<in>set (netloc parsed). \<not> netloc_end c \<and> c \<noteq> 9 \<and> c \<noteq> 13 \<and> c \<noteq> 10"
    unfolding parsed using c2 by blast
  have p5: "prefix pth url5" unfolding pth_def by (simp add: splitparams_fst_prefix)
  have p4: "prefix url5 url4" unfolding url5_def by (rule split_once_fst_prefix)
  have "set url3 \<subseteq> set url2"
    unfolding url3_def splitnetloc_def by (auto dest: set_dropWhileD in_set_dropD)
  moreover have "set url4 \<subseteq> set url3"
    unfolding url4_def using set_mono_prefix [OF split_once_fst_prefix] .
  moreover from p5 p4 have "set pth \<subseteq> set url4" using set_mono_prefix by blast
  ultimately have "set pth \<subseteq> set url2" by blast
  with c2 have safe: "\<forall>c\<in>set pth. c \<noteq> 9 \<and> c \<noteq> 13 \<and> c \<noteq> 10" by blast
  have "35 \<notin> set url4" unfolding url4_def by (rule split_once_fst_free)
  with p5 p4 have no35: "35 \<notin> set pth" using set_mono_prefix by blast
  have "63 \<notin> set url5" unfolding url5_def by (rule split_once_fst_free)
  with p5 have no63: "63 \<notin> set pth" using set_mono_prefix by blast
  from safe no35 no63 show "\<forall>c\<in>set (path parsed). c \<noteq> 35 \<and> c \<noteq> 63 \<and> c \<noteq> 9 \<and> c \<noteq> 13 \<and> c \<noteq> 10"
    unfolding parsed by blast
qed

text \<open>
  Parsing a scheme, \<open>://\<close> and a text with a slash: the host is what stands before the
  first slash, the path is the rest.
\<close>

lemma last_segment_append: "47 \<in> set p \<Longrightarrow> last_segment (a @ p) = last_segment p"
proof -
  assume "47 \<in> set p"
  then have "47 \<in> set (rev p)" by simp
  then have "takeWhile (\<lambda>c. c \<noteq> 47) (rev p @ rev a) = takeWhile (\<lambda>c. c \<noteq> 47) (rev p)"
    by (rule takeWhile_append1) simp
  then show ?thesis by (simp add: last_segment_def)
qed

lemma urlparse_normal_form:
  assumes ne: "sch \<noteq> []" and colon: "58 \<notin> set sch" and alpha: "isalpha_ascii (hd sch)"
    and chars: "list_all scheme_char sch" and low: "ascii_lower sch = sch"
    and x: "\<forall>c\<in>set x. c \<noteq> 35 \<and> c \<noteq> 63 \<and> c \<noteq> 9 \<and> c \<noteq> 13 \<and> c \<noteq> 10"
    and slash: "47 \<in> set x"
    and acc: "netloc_accepted L (takeWhile (\<lambda>c. c \<noteq> 47) x)"
    and semi: "sch \<in> set uses_params \<longrightarrow> 59 \<notin> set (last_segment x)"
  shows "urlparse L (sch @ py ''://'' @ x) =
     Some \<lparr>scheme = sch, netloc = takeWhile (\<lambda>c. c \<noteq> 47) x, path = dropWhile (\<lambda>c. c \<noteq> 47) x,
            params = [], query = [], fragment = []\<rparr>"
proof -
  define t where "t = takeWhile (\<lambda>c. c \<noteq> 47) x"
  define d where "d = dropWhile (\<lambda>c. c \<noteq> 47) x"
  from x have "\<forall>c\<in>set x. c \<noteq> 9 \<and> c \<noteq> 13 \<and> c \<noteq> 10" by blast
  note clean = normal_form_clean [OF ne chars this]
  note sp = split_scheme_normal [OF ne colon alpha chars low, of x]
  from x have same: "\<And>c. c \<in> set x \<Longrightarrow> (\<not> netloc_end c) = (c \<noteq> 47)"
    by (auto simp: netloc_end_def)
  have tw: "takeWhile (\<lambda>c. \<not> netloc_end c) x = t"
    unfolding t_def by (rule takeWhile_cong [OF refl same])
  have dw: "dropWhile (\<lambda>c. \<not> netloc_end c) x = d"
    unfolding d_def by (rule dropWhile_cong [OF refl same])
  have td: "x = t @ d" by (simp add: t_def d_def)
  have "set d \<subseteq> set x" unfolding d_def by (auto dest: set_dropWhileD)
  with x have dc: "35 \<notin> set d" "63 \<notin> set d" by auto
  then have s35: "split_once 35 d = (d, [])" and s63: "split_once 63 d = (d, [])"
    by (simp_all add: split_once_def)
  from slash have "d \<noteq> []" unfolding d_def by (simp add: dropWhile_eq_Nil_conv)
  then have "hd d = 47" unfolding d_def using hd_dropWhile [of "\<lambda>c. c \<noteq> 47" x] by simp
  with \<open>d \<noteq> []\<close> have "47 \<in> set d" by (cases d) auto
  then have "last_segment x = last_segment d" unfolding td by (rule last_segment_append)
  with semi have params: "sch \<in> set uses_params \<and> 59 \<in> set d \<longrightarrow> splitparams d = (d, [])"
    by (simp add: splitparams_def Let_def)
  have "urlsplit L (sch @ py ''://'' @ x) = Some (sch, t, d, [], [])"
    unfolding urlsplit_def clean Let_def sp prod.case splitnetloc_slashes if_True tw dw
    using acc by (simp add: s35 s63 t_def)
  with params show ?thesis
    unfolding urlparse_def t_def [symmetric] d_def [symmetric] by (auto simp: Let_def)
qed

lemma rstrip_by_idem: "rstrip_by P (rstrip_by P s) = rstrip_by P s"
proof (cases "dropWhile P (rev s)")
  case Nil
  then show ?thesis by (simp add: rstrip_by_def)
next
  case (Cons c cs)
  then have "\<not> P c" using hd_dropWhile [of P "rev s"] by auto
  with Cons show ?thesis by (simp add: rstrip_by_def)
qed

lemma rstrip_by_prefix: "prefix (rstrip_by P s) s"
  using rstrip_by_decomp [of P s] by (metis prefixI)

lemma rstrip_by_last: "s \<noteq> [] \<Longrightarrow> \<not> P (last s) \<Longrightarrow> rstrip_by P s = s"
  by (induction s rule: rev_induct) (simp_all add: rstrip_by_def)

lemma rstrip_by_stops: "rstrip_by P s \<noteq> [] \<Longrightarrow> \<not> P (last (rstrip_by P s))"
proof -
  assume "rstrip_by P s \<noteq> []"
  then have r: "dropWhile P (rev s) \<noteq> []" by (simp add: rstrip_by_def)
  then have "\<not> P (hd (dropWhile P (rev s)))" by (rule hd_dropWhile)
  with r show ?thesis by (simp add: rstrip_by_def last_rev)
qed

lemma normal_path_chars: "set (normal_path p) \<subseteq> insert 47 (set p)"
  using set_mono_prefix [OF rstrip_by_prefix [of "\<lambda>c. c = 47" p]]
  by (auto simp: normal_path_def py_def)

text \<open>A normal path is a single slash, or it does not end with a slash.\<close>

lemma normal_path_form:
  "normal_path p = [47] \<or> (normal_path p \<noteq> [] \<and> last (normal_path p) \<noteq> 47)"
proof (cases "rstrip_by (\<lambda>c. c = 47) p = []")
  case True
  then show ?thesis by (simp add: normal_path_def py_def)
next
  case False
  with rstrip_by_stops [of "\<lambda>c. c = 47" p] show ?thesis by (simp add: normal_path_def)
qed

lemma normal_path_fixed:
  "q = [47] \<or> (q \<noteq> [] \<and> last q \<noteq> 47) \<Longrightarrow> normal_path q = q"
proof (erule disjE)
  assume "q = [47]"
  then show ?thesis by (simp add: normal_path_def py_def rstrip_by_def)
next
  assume "q \<noteq> [] \<and> last q \<noteq> 47"
  then have "rstrip_by (\<lambda>c. c = 47) q = q" by (simp add: rstrip_by_last)
  with \<open>q \<noteq> [] \<and> last q \<noteq> 47\<close> show ?thesis by (simp add: normal_path_def)
qed

lemma http_prefix_join:
  assumes "sch = py ''http'' \<or> sch = py ''https''"
  shows "startswith (sch @ py ''://'' @ rest) (py ''http://'')
         \<or> startswith (sch @ py ''://'' @ rest) (py ''https://'')"
  using assms by (auto simp: startswith_def py_def)

text \<open>
  C7, as the code has it. Take a URL \<open>u\<close>; let \<open>u'\<close> be what it resolves to (\<open>u\<close> itself
  when it starts with \<open>http://\<close> or \<open>https://\<close>, otherwise what \<open>urljoin\<close> returns) and
  \<open>parsed\<close> what \<open>urlparse\<close> makes of \<open>u'\<close>, so that the normal form of \<open>u\<close> is
  \<open>normal_form parsed\<close>: the scheme, \<open>://\<close>, the host and the normal path. Normalising the
  normal form returns it unchanged if
  \<^item> \<open>u'\<close> has a scheme;
  \<^item> the normal path holds a slash; it does whenever the path of \<open>u'\<close> is empty or starts
    with a slash, as every path after \<open>//host\<close> does;
  \<^item> the normal path starts with a slash, or else what stands before its first slash,
    which is read as the host the second time, is a host that \<open>urlparse\<close> accepts;
  \<^item> the last segment of the normal path holds no semicolon, or the scheme is none of
    those for which \<open>urlparse\<close> splits parameters off; and
  \<^item> resolving leaves the normal form as it is: the scheme is \<open>http\<close> or \<open>https\<close>, or
    \<open>urljoin\<close> returns the normal form unchanged.
\<close>

theorem normalize_url_idempotent:
  assumes res: "resolve L s u = Some u'"
    and parse: "urlparse L u' = Some parsed"
    and sch: "scheme parsed \<noteq> []"
    and slash: "47 \<in> set (normal_path (path parsed))"
    and host: "hd (normal_path (path parsed)) = 47
                 \<or> netloc_accepted L
                      (takeWhile (\<lambda>c. c \<noteq> 47) (netloc parsed @ normal_path (path parsed)))"
    and semi: "scheme parsed \<in> set uses_params
                 \<longrightarrow> 59 \<notin> set (last_segment (normal_path (path parsed)))"
    and again: "scheme parsed = py ''http'' \<or> scheme parsed = py ''https''
                 \<or> urljoin L (base_url s) (normal_form parsed) = Some (normal_form parsed)"
  shows "normalize_url L s u = Some (normal_form parsed)
         \<and> normalize_url L s (normal_form parsed) = Some (normal_form parsed)"
proof -
  define p where "p = normal_path (path parsed)"
  define x where "x = netloc parsed @ p"
  define t where "t = takeWhile (\<lambda>c. c \<noteq> 47) x"
  define d where "d = dropWhile (\<lambda>c. c \<noteq> 47) x"
  have n: "normal_form parsed = scheme parsed @ py ''://'' @ x"
    by (simp add: normal_form_def p_def x_def)
  have first: "normalize_url L s u = Some (normal_form parsed)"
    by (simp add: normalize_url_def res parse)
  note facts = urlparse_parts [OF parse]
  from facts(1) sch have s1: "58 \<notin> set (scheme parsed)" and s2: "isalpha_ascii (hd (scheme parsed))"
    and s3: "list_all scheme_char (scheme parsed)" and s4: "ascii_lower (scheme parsed) = scheme parsed"
    by simp_all
  from slash have p_slash: "47 \<in> set p" by (simp add: p_def)
  then have p_ne: "p \<noteq> []" by auto
  have sub: "set p \<subseteq> insert 47 (set (path parsed))" unfolding p_def by (rule normal_path_chars)
  have x_chars: "\<forall>c\<in>set x. c \<noteq> 35 \<and> c \<noteq> 63 \<and> c \<noteq> 9 \<and> c \<noteq> 13 \<and> c \<noteq> 10"
  proof
    fix c
    assume "c \<in> set x"
    then have "c \<in> set (netloc parsed) \<or> c = 47 \<or> c \<in> set (path parsed)"
      using sub by (auto simp: x_def)
    then show "c \<noteq> 35 \<and> c \<noteq> 63 \<and> c \<noteq> 9 \<and> c \<noteq> 13 \<and> c \<noteq> 10"
    proof (elim disjE)
      assume "c \<in> set (netloc parsed)"
      with facts(2) have "\<not> netloc_end c \<and> c \<noteq> 9 \<and> c \<noteq> 13 \<and> c \<noteq> 10" by (rule bspec)
      then show ?thesis by (simp add: netloc_end_def)
    next
      assume "c = 47"
      then show ?thesis by simp
    next
      assume "c \<in> set (path parsed)"
      with facts(4) show ?thesis by (rule bspec)
    qed
  qed
  from p_slash have x_slash: "47 \<in> set x" by (simp add: x_def)
  have loc_free: "\<forall>c\<in>set (netloc parsed). c \<noteq> 47"
    using facts(2) by (auto simp: netloc_end_def)
  have acc: "netloc_accepted L t"
  proof (cases "hd p = 47")
    case True
    with p_ne obtain p' where "p = 47 # p'" by (cases p) auto
    with loc_free have "t = netloc parsed"
      unfolding t_def x_def by (subst takeWhile_append2) auto
    with facts(3) show ?thesis by simp
  next
    case False
    with host show ?thesis by (simp add: p_def x_def t_def)
  qed
  from p_slash have "last_segment x = last_segment p" unfolding x_def by (rule last_segment_append)
  with semi have semi': "scheme parsed \<in> set uses_params \<longrightarrow> 59 \<notin> set (last_segment x)"
    by (simp add: p_def)
  have reparse: "urlparse L (normal_form parsed) =
     Some \<lparr>scheme = scheme parsed, netloc = t, path = d, params = [], query = [], fragment = []\<rparr>"
    unfolding n t_def d_def
    by (rule urlparse_normal_form [OF sch s1 s2 s3 s4 x_chars x_slash acc [unfolded t_def] semi'])
  have td: "t @ d = x" by (simp add: t_def d_def)
  from x_slash have d_ne: "d \<noteq> []" unfolding d_def by (simp add: dropWhile_eq_Nil_conv)
  with td have last_d: "last d = last x" by (metis last_appendR)
  from p_ne have last_x: "last x = last p" by (simp add: x_def)
  have "d = [47] \<or> (d \<noteq> [] \<and> last d \<noteq> 47)"
  proof (cases "p = [47]")
    case True
    with loc_free have "d = [47]"
      unfolding d_def x_def by (subst dropWhile_append2) auto
    then show ?thesis by simp
  next
    case False
    with normal_path_form [of "path parsed"] have "last p \<noteq> 47" by (simp add: p_def)
    with last_d last_x d_ne show ?thesis by simp
  qed
  then have stable: "normal_path d = d" by (rule normal_path_fixed)
  have "resolve L s (normal_form parsed) = Some (normal_form parsed)"
  proof (cases "scheme parsed = py ''http'' \<or> scheme parsed = py ''https''")
    case True
    then have "startswith (normal_form parsed) (py ''http://'')
        \<or> startswith (normal_form parsed) (py ''https://'')"
      unfolding n by (rule http_prefix_join)
    then show ?thesis by (simp add: resolve_def)
  next
    case False
    with again have "urljoin L (base_url s) (normal_form parsed) = Some (normal_form parsed)"
      by simp
    then show ?thesis by (simp add: resolve_def)
  qed
  with reparse have "normalize_url L s (normal_form parsed) =
      Some (scheme parsed @ py ''://'' @ t @ normal_path d)"
    by (simp add: normalize_url_def normal_form_def)
  then have "normalize_url L s (normal_form parsed) = Some (normal_form parsed)"
    unfolding stable n td [symmetric] by simp
  with first show ?thesis by simp
qed

text \<open>
  Four URLs. \<open>https://a.com/faq/?q=1\<close> becomes \<open>https://a.com/faq\<close>, which stays.
  \<open>https://a.com/a;b/c/\<close> has a semicolon, but not in the last segment of its normal
  form \<open>https://a.com/a;b/c\<close>, which stays. \<open>ftp://a.com/x/\<close> has another scheme, and
  its normal form \<open>ftp://a.com/x\<close> stays. \<open>mailto:x@y/z\<close> has no host and a path that
  does not start with a slash; in its normal form \<open>mailto://x@y/z\<close> the host is \<open>x@y\<close>,
  and it stays.
\<close>

theorem normalize_url_idempotent_witness:
  "urlparse demo_lib (py ''https://a.com/faq/?q=1'')
       = Some ((url_of ''https'' ''a.com'' ''/faq/'')\<lparr>query := py ''q=1''\<rparr>)
   \<and> normalize_url demo_lib demo_scraper (py ''https://a.com/faq/?q=1'') = Some (py ''https://a.com/faq'')
   \<and> normalize_url demo_lib demo_scraper (py ''https://a.com/faq'') = Some (py ''https://a.com/faq'')
   \<and> urlparse demo_lib (py ''https://a.com/a;b/c/'') = Some (url_of ''https'' ''a.com'' ''/a;b/c/'')
   \<and> normalize_url demo_lib demo_scraper (py ''https://a.com/a;b/c/'') = Some (py ''https://a.com/a;b/c'')
   \<and> normalize_url demo_lib demo_scraper (py ''https://a.com/a;b/c'') = Some (py ''https://a.com/a;b/c'')
   \<and> urlparse other_scheme_lib (py ''ftp://a.com/x/'') = Some (url_of ''ftp'' ''a.com'' ''/x/'')
   \<and> normalize_url other_scheme_lib demo_scraper (py ''ftp://a.com/x/'') = Some (py ''ftp://a.com/x'')
   \<and> normalize_url other_scheme_lib demo_scraper (py ''ftp://a.com/x'') = Some (py ''ftp://a.com/x'')
   \<and> urlparse other_scheme_lib (py ''mailto:x@y/z'') = Some (url_of ''mailto'' [] ''x@y/z'')
   \<and> normalize_url other_scheme_lib demo_scraper (py ''mailto:x@y/z'') = Some (py ''mailto://x@y/z'')
   \<and> normalize_url other_scheme_lib demo_scraper (py ''mailto://x@y/z'') = Some (py ''mailto://x@y/z'')"
proof -
  let ?p1 = "(url_of ''https'' ''a.com'' ''/faq/'')\<lparr>query := py ''q=1''\<rparr>"
  let ?p2 = "url_of ''https'' ''a.com'' ''/a;b/c/''"
  let ?p3 = "url_of ''ftp'' ''a.com'' ''/x/''"
  let ?p4 = "url_of ''mailto'' [] ''x@y/z''"
  have r1: "resolve demo_lib demo_scraper (py ''https://a.com/faq/?q=1'') = Some (py ''https://a.com/faq/?q=1'')"
    by (simp add: resolve_def str_defs)
  have p1: "urlparse demo_lib (py ''https://a.com/faq/?q=1'') = Some ?p1"
    by (simp add: url_defs str_defs char_defs url_of_def)
  have n1: "normal_form ?p1 = py ''https://a.com/faq''"
    by (simp add: normal_form_def normal_path_def url_of_def str_defs)
  have h1: "scheme ?p1 \<noteq> []" "47 \<in> set (normal_path (path ?p1))"
    "hd (normal_path (path ?p1)) = 47
       \<or> netloc_accepted demo_lib (takeWhile (\<lambda>c. c \<noteq> 47) (netloc ?p1 @ normal_path (path ?p1)))"
    "scheme ?p1 \<in> set uses_params \<longrightarrow> 59 \<notin> set (last_segment (normal_path (path ?p1)))"
    "scheme ?p1 = py ''http'' \<or> scheme ?p1 = py ''https''
       \<or> urljoin demo_lib (base_url demo_scraper) (normal_form ?p1) = Some (normal_form ?p1)"
    by (simp_all add: url_of_def normal_path_def last_segment_def str_defs)
  note t1 = normalize_url_idempotent [OF r1 p1 h1, unfolded n1]
  have r2: "resolve demo_lib demo_scraper (py ''https://a.com/a;b/c/'') = Some (py ''https://a.com/a;b/c/'')"
    by (simp add: resolve_def str_defs)
  have p2: "urlparse demo_lib (py ''https://a.com/a;b/c/'') = Some ?p2"
    by (simp add: url_defs str_defs char_defs url_of_def)
  have n2: "normal_form ?p2 = py ''https://a.com/a;b/c''"
    by (simp add: normal_form_def normal_path_def url_of_def str_defs)
  have h2: "scheme ?p2 \<noteq> []" "47 \<in> set (normal_path (path ?p2))"
    "hd (normal_path (path ?p2)) = 47
       \<or> netloc_accepted demo_lib (takeWhile (\<lambda>c. c \<noteq> 47) (netloc ?p2 @ normal_path (path ?p2)))"
    "scheme ?p2 \<in> set uses_params \<longrightarrow> 59 \<notin> set (last_segment (normal_path (path ?p2)))"
    "scheme ?p2 = py ''http'' \<or> scheme ?p2 = py ''https''
       \<or> urljoin demo_lib (base_url demo_scraper) (normal_form ?p2) = Some (normal_form ?p2)"
    by (simp_all add: url_of_def normal_path_def last_segment_def str_defs)
  note t2 = normalize_url_idempotent [OF r2 p2 h2, unfolded n2]
  have r3: "resolve other_scheme_lib demo_scraper (py ''ftp://a.com/x/'') = Some (py ''ftp://a.com/x/'')"
    by (simp add: resolve_def str_defs other_scheme_lib_def)
  have p3: "urlparse other_scheme_lib (py ''ftp://a.com/x/'') = Some ?p3"
    by (simp add: url_defs str_defs char_defs url_of_def other_scheme_lib_def)
  have n3: "normal_form ?p3 = py ''ftp://a.com/x''"
    by (simp add: normal_form_def normal_path_def url_of_def str_defs)
  have h3: "scheme ?p3 \<noteq> []" "47 \<in> set (normal_path (path ?p3))"
    "hd (normal_path (path ?p3)) = 47
       \<or> netloc_accepted other_scheme_lib
            (takeWhile (\<lambda>c. c \<noteq> 47) (netloc ?p3 @ normal_path (path ?p3)))"
    "scheme ?p3 \<in> set uses_params \<longrightarrow> 59 \<notin> set (last_segment (normal_path (path ?p3)))"
    "scheme ?p3 = py ''http'' \<or> scheme ?p3 = py ''https''
       \<or> urljoin other_scheme_lib (base_url demo_scraper) (normal_form ?p3) = Some (normal_form ?p3)"
    by (simp_all add: url_of_def normal_path_def last_segment_def str_defs other_scheme_lib_def)
  note t3 = normalize_url_idempotent [OF r3 p3 h3, unfolded n3]
  have r4: "resolve other_scheme_lib demo_scraper (py ''mailto:x@y/z'') = Some (py ''mailto:x@y/z'')"
    by (simp add: resolve_def str_defs other_scheme_lib_def)
  have p4: "urlparse other_scheme_lib (py ''mailto:x@y/z'') = Some ?p4"
    by (simp add: url_defs str_defs char_defs url_of_def other_scheme_lib_def)
  have n4: "normal_form ?p4 = py ''mailto://x@y/z''"
    by (simp add: normal_form_def normal_path_def url_of_def str_defs)
  have h4: "scheme ?p4 \<noteq> []" "47 \<in> set (normal_path (path ?p4))"
    "hd (normal_path (path ?p4)) = 47
       \<or> netloc_accepted other_scheme_lib
            (takeWhile (\<lambda>c. c \<noteq> 47) (netloc ?p4 @ normal_path (path ?p4)))"
    "scheme ?p4 \<in> set uses_params \<longrightarrow> 59 \<notin> set (last_segment (normal_path (path ?p4)))"
    "scheme ?p4 = py ''http'' \<or> scheme ?p4 = py ''https''
       \<or> urljoin other_scheme_lib (base_url demo_scraper) (normal_form ?p4) = Some (normal_form ?p4)"
    by (simp_all add: url_of_def normal_path_def last_segment_def str_defs char_defs
        netloc_accepted_def uses_params_def other_scheme_lib_def)
  note t4 = normalize_url_idempotent [OF r4 p4 h4, unfolded n4]
  from p1 t1 p2 t2 p3 t3 p4 t4 show ?thesis by blast
qed

text \<open>
  With a semicolon in the last segment the normal form can move: \<open>urlparse\<close> cuts the
  parameters off the last segment of the path only, and stripping the final slash makes
  \<open>help;v=2\<close> the last segment. So \<open>https://a.com/help;v=2/\<close> becomes
  \<open>https://a.com/help;v=2\<close>, and that becomes \<open>https://a.com/help\<close>.

  With a path that does not start with a slash it moves too: \<open>mailto:x@y\<close> has the path
  \<open>x@y\<close> and no host, its normal form is \<open>mailto://x@y\<close>, where \<open>x@y\<close> has become the host,
  and the normal form of that is \<open>mailto://x@y/\<close>.
\<close>

theorem normalize_url_idempotent_counterexample:
  "normalize_url demo_lib demo_scraper (py ''https://a.com/help;v=2/'') = Some (py ''https://a.com/help;v=2'')
   \<and> normalize_url demo_lib demo_scraper (py ''https://a.com/help;v=2'') = Some (py ''https://a.com/help'')
   \<and> py ''https://a.com/help;v=2'' \<noteq> py ''https://a.com/help''
   \<and> normalize_url other_scheme_lib demo_scraper (py ''mailto:x@y'') = Some (py ''mailto://x@y'')
   \<and> normalize_url other_scheme_lib demo_scraper (py ''mailto://x@y'') = Some (py ''mailto://x@y/'')
   \<and> py ''mailto://x@y'' \<noteq> py ''mailto://x@y/''"
proof -
  have "normalize_url demo_lib demo_scraper (py ''https://a.com/help;v=2/'') = Some (py ''https://a.com/help;v=2'')"
    by (simp add: normalize_url_def url_defs str_defs char_defs)
  moreover have "normalize_url demo_lib demo_scraper (py ''https://a.com/help;v=2'') = Some (py ''https://a.com/help'')"
    by (simp add: normalize_url_def url_defs str_defs char_defs)
  moreover have "normalize_url other_scheme_lib demo_scraper (py ''mailto:x@y'') = Some (py ''mailto://x@y'')"
    by (simp add: normalize_url_def url_defs str_defs char_defs other_scheme_lib_def)
  moreover have "normalize_url other_scheme_lib demo_scraper (py ''mailto://x@y'') = Some (py ''mailto://x@y/'')"
    by (simp add: normalize_url_def url_defs str_defs char_defs other_scheme_lib_def)
  moreover have "py ''https://a.com/help;v=2'' \<noteq> py ''https://a.com/help''"
    "py ''mailto://x@y'' \<noteq> py ''mailto://x@y/''"
    by (simp_all add: py_def)
  ultimately show ?thesis by blast
qed

section \<open>What extraction appends\<close>

lemma add_faq_appends:
  "\<exists>new. all_faqs (add_faq L q a u s) = all_faqs s @ new
     \<and> (\<forall>r\<in>set new. answer r = a \<and> sourceUrl r = u \<and> question r = clean_question L q
           \<and> 5 < length (question r))"
  by (simp add: add_faq_def Let_def)

lemma add_all_appends:
  "\<exists>new. all_faqs (add_all L pairs u s) = all_faqs s @ new
     \<and> (\<forall>r\<in>set new. sourceUrl r = u \<and> 5 < length (question r)
           \<and> (\<exists>(q, a)\<in>set pairs. answer r = a \<and> question r = clean_question L q))"
proof (induction pairs arbitrary: s)
  case Nil
  show ?case by (simp add: add_all_def)
next
  case (Cons p pairs)
  obtain q a where p: "p = (q, a)" by (cases p)
  from add_faq_appends [of L q a u s] obtain n1 where
    n1: "all_faqs (add_faq L q a u s) = all_faqs s @ n1"
      "\<forall>r\<in>set n1. answer r = a \<and> sourceUrl r = u \<and> question r = clean_question L q
           \<and> 5 < length (question r)" by blast
  from Cons.IH [of "add_faq L q a u s"] obtain n2 where
    n2: "all_faqs (add_all L pairs u (add_faq L q a u s)) = all_faqs (add_faq L q a u s) @ n2"
      "\<forall>r\<in>set n2. sourceUrl r = u \<and> 5 < length (question r)
           \<and> (\<exists>(q, a)\<in>set pairs. answer r = a \<and> question r = clean_question L q)" by blast
  have "all_faqs (add_all L (p # pairs) u s) = all_faqs s @ (n1 @ n2)"
    using n1(1) n2(1) by (simp add: add_all_def p)
  moreover have "\<forall>r\<in>set (n1 @ n2). sourceUrl r = u \<and> 5 < length (question r)
           \<and> (\<exists>(q, a)\<in>set (p # pairs). answer r = a \<and> question r = clean_question L q)"
    using n1(2) n2(2) p by fastforce
  ultimately show ?case by blast
qed

lemma both_long_answer: "(q, a) \<in> set (both_long q' a') \<Longrightarrow> 20 < length a"
  by (simp add: both_long_def split: if_splits)

lemma both_answer: "(q, a) \<in> set (both q' a') \<Longrightarrow> a \<noteq> []"
  by (simp add: both_def split: if_splits)

lemma heading_pairs_long: "(q, a) \<in> set (heading_pairs L e) \<Longrightarrow> 20 < length a"
  by (auto simp: heading_pairs_def Let_def dest: both_long_answer split: if_splits)

lemma markdown_pairs_long: "(q, a) \<in> set (markdown_pairs L e) \<Longrightarrow> 20 < length a"
  by (auto simp: markdown_pairs_def dest: both_long_answer)

lemma paragraph_pairs_long: "(q, a) \<in> set (paragraph_pairs L ps) \<Longrightarrow> 20 < length a"
  by (induction L ps rule: paragraph_pairs.induct)
     (auto simp: question_pair_def dest: both_long_answer split: if_splits)

lemma paragraph_list_pairs_long: "(q, a) \<in> set (paragraph_list_pairs L ps) \<Longrightarrow> 20 < length a"
  by (induction L ps rule: paragraph_list_pairs.induct)
     (auto simp: question_pair_def dest: both_long_answer split: if_splits)

lemma details_pairs_nonempty: "(q, a) \<in> set (details_pairs L e) \<Longrightarrow> a \<noteq> []"
  by (auto simp: details_pairs_def dest: both_answer split: option.splits)

lemma container_pairs_nonempty: "(q, a) \<in> set (container_pairs L e) \<Longrightarrow> a \<noteq> []"
  by (auto simp: container_pairs_def dest: both_answer split: option.splits)

lemma dl_pairs_nonempty: "(q, a) \<in> set (dl_pairs L e) \<Longrightarrow> a \<noteq> []"
  by (auto simp: dl_pairs_def dest: both_answer)

section \<open>Invariants of extraction and of the crawl\<close>

lemma add_all_preserves:
  assumes add: "\<And>q a s. P s \<Longrightarrow> P (add_faq L q a url s)" and "P s"
  shows "P (add_all L pairs url s)"
  using assms(2)
proof (induction pairs arbitrary: s)
  case Nil
  then show ?case by (simp add: add_all_def)
next
  case (Cons p pairs)
  obtain q a where p: "p = (q, a)" by (cases p)
  from Cons.prems have "P (add_faq L q a url s)" by (rule add)
  then have "P (add_all L pairs url (add_faq L q a url s))" by (rule Cons.IH)
  then show ?case by (simp add: add_all_def p)
qed

lemma extract_elements_preserves:
  assumes add: "\<And>q a s. P s \<Longrightarrow> P (add_faq L q a url s)" and "P s"
  shows "P (extract_elements L cs url s)"
  using assms(2)
proof (induction cs arbitrary: s)
  case Nil
  then show ?case by simp
next
  case (Cons c cs)
  show ?case
  proof (cases c)
    case (Paragraph t)
    with Cons show ?thesis by simp
  next
    case (Element e)
    have "P (extract_from_faq_element L e url s)"
      unfolding extract_from_faq_element_def
      using add_all_preserves [where P = P and url = url, OF add Cons.prems] .
    then have "P (extract_elements L cs url (extract_from_faq_element L e url s))" by (rule Cons.IH)
    with Element show ?thesis by simp
  qed
qed

lemma extract_section_preserves:
  assumes add: "\<And>q a s. P s \<Longrightarrow> P (add_faq L q a url s)" and "P s"
  shows "P (extract_section L cs url s)"
proof -
  have e: "P (extract_elements L cs url s)"
    using extract_elements_preserves [where P = P and url = url, OF add assms(2)] .
  have "P (extract_from_paragraph_list L (paragraphs_of cs) url (extract_elements L cs url s))"
    unfolding extract_from_paragraph_list_def
    using add_all_preserves [where P = P and url = url, OF add e] .
  with e show ?thesis by (simp add: extract_section_def Let_def)
qed

lemma extract_faqs_from_page_preserves:
  assumes add: "\<And>q a s. P s \<Longrightarrow> P (add_faq L q a url s)" and "P s"
  shows "P (extract_faqs_from_page L pg url s)"
proof -
  have s': "P (extract_schema_faqs L pg url s)"
    unfolding extract_schema_faqs_def
    using add_all_preserves [where P = P and url = url, OF add assms(2)] .
  have "P t \<Longrightarrow> P (fold (\<lambda>cs. extract_section L cs url) secs t)" for secs t
  proof (induction secs arbitrary: t)
    case Nil
    then show ?case by simp
  next
    case (Cons c secs)
    have "P (extract_section L c url t)"
      using extract_section_preserves [where P = P and url = url, OF add Cons.prems] .
    then show ?case using Cons.IH by simp
  qed
  with s' show ?thesis by (simp add: extract_faqs_from_page_def Let_def)
qed

lemma scrape_sync_state_phases:
  "scrape_sync_state L w s0 =
     (if all_faqs (after_faq_links L w s0) = []
      then crawl_all L w
             (filter (\<lambda>(url, text). url \<notin> set (visited_urls (after_faq_links L w s0)))
                (homepage_links L w s0))
             (after_faq_links L w s0)
      else after_faq_links L w s0)"
proof -
  have b: "base_url (visit (base_url s0) s0) = base_url s0" by (simp add: visit_def)
  show ?thesis
  proof (cases "fetch_page_sync L w (visit (base_url s0) s0) (base_url s0)")
    case None
    then show ?thesis
      unfolding scrape_sync_state_def after_faq_links_def faq_links_def after_homepage_def
        homepage_links_def homepage_result_def Let_def b
      by simp
  next
    case (Some r)
    obtain pg links where "r = (pg, links)" by (cases r)
    with Some show ?thesis
      unfolding scrape_sync_state_def after_faq_links_def faq_links_def after_homepage_def
        homepage_links_def homepage_result_def Let_def b
      by simp
  qed
qed

lemma faq_step_preserves:
  assumes add: "\<And>q a url s. P s \<Longrightarrow> P (add_faq L q a url s)"
    and vis: "\<And>url s. P s \<Longrightarrow> P (visit url s)"
    and flag: "\<And>s. P s \<Longrightarrow> P (s\<lparr>faq_page_found := True\<rparr>)"
    and "P s"
  shows "P (faq_step L w link s)"
proof -
  have v: "P (visit (fst link) s)" by (rule vis [OF assms(4)])
  have "P ((extract_faqs_from_page L pg (fst link) (visit (fst link) s))\<lparr>faq_page_found := True\<rparr>)" for pg
    using flag [OF extract_faqs_from_page_preserves [where P = P and url = "fst link", OF add v]] .
  with v assms(4) show ?thesis
    by (auto simp: faq_step_def Let_def split: option.splits)
qed

lemma crawl_faq_links_preserves:
  assumes add: "\<And>q a url s. P s \<Longrightarrow> P (add_faq L q a url s)"
    and vis: "\<And>url s. P s \<Longrightarrow> P (visit url s)"
    and flag: "\<And>s. P s \<Longrightarrow> P (s\<lparr>faq_page_found := True\<rparr>)"
    and "P s"
  shows "P (crawl_faq_links L w links s)"
  using assms(4)
proof (induction links arbitrary: s)
  case Nil
  then show ?case by (simp add: crawl_faq_links_def)
next
  case (Cons l links)
  have "P (faq_step L w l s)"
    using faq_step_preserves [where P = P, OF add vis flag Cons.prems] .
  then have "P (crawl_faq_links L w links (faq_step L w l s))" by (rule Cons.IH)
  then show ?case by (simp add: crawl_faq_links_def)
qed

lemma crawl_all_preserves:
  assumes add: "\<And>q a url s. P s \<Longrightarrow> P (add_faq L q a url s)"
    and vis: "\<And>url s. P s \<Longrightarrow> P (visit url s)"
    and "P s"
  shows "P (crawl_all L w to_crawl s)"
  using assms
proof (induction L w to_crawl s rule: crawl_all.induct)
  case (1 L w s)
  then show ?case by simp
next
  case (2 L w url t to_crawl s)
  note add = "2.prems"(1) and vis = "2.prems"(2) and here = "2.prems"(3)
  show ?case
  proof (cases "int (length (visited_urls s)) < max_pages s")
    case False
    with here show ?thesis by simp
  next
    case lt: True
    show ?thesis
    proof (cases "url \<in> set (visited_urls s)")
      case True
      have "P (crawl_all L w to_crawl s)" by (rule "2.IH"(1) [OF lt True add vis here])
      with lt True show ?thesis by simp
    next
      case new: False
      have v: "P (visit url s)" by (rule vis [OF here])
      show ?thesis
      proof (cases "fetch_page_sync L w (visit url s) url")
        case None
        have "P (crawl_all L w to_crawl (visit url s))" by (rule "2.IH"(2) [OF lt new None add vis v])
        with lt new None show ?thesis by simp
      next
        case (Some r)
        obtain pg links where r: "r = (pg, links)" by (cases r)
        have e: "P (extract_faqs_from_page L pg url (visit url s))"
          using extract_faqs_from_page_preserves [where P = P and url = url and L = L, OF add v] .
        have "P (crawl_all L w
                (to_crawl @ filter (\<lambda>(l, t). l \<notin> set (visited_urls (visit url s))) links)
                (extract_faqs_from_page L pg url (visit url s)))"
          by (rule "2.IH"(3) [OF lt new Some r [symmetric] add vis e])
        with lt new Some r show ?thesis by simp
      qed
    qed
  qed
qed

lemma scrape_sync_state_preserves:
  assumes add: "\<And>q a url s. P s \<Longrightarrow> P (add_faq L q a url s)"
    and vis: "\<And>url s. P s \<Longrightarrow> P (visit url s)"
    and flag: "\<And>s. P s \<Longrightarrow> P (s\<lparr>faq_page_found := True\<rparr>)"
    and "P s0"
  shows "P (scrape_sync_state L w s0)"
proof -
  have v: "P (visit (base_url s0) s0)" by (rule vis [OF assms(4)])
  have h: "P (after_homepage L w s0)"
    unfolding after_homepage_def
    using v extract_faqs_from_page_preserves [where P = P and url = "base_url s0", OF add v]
    by (auto split: option.splits)
  have f: "P (after_faq_links L w s0)"
    unfolding after_faq_links_def
    using h crawl_faq_links_preserves [where P = P, OF add vis flag h] by simp
  show ?thesis
    unfolding scrape_sync_state_phases
    using f crawl_all_preserves [where P = P, OF add vis f] by simp
qed

lemma added_add_all:
  "\<forall>r\<in>set (added s (add_all L pairs u s)). sourceUrl r = u \<and> 5 < length (question r)
           \<and> (\<exists>(q, a)\<in>set pairs. answer r = a \<and> question r = clean_question L q)"
  using add_all_appends [of L pairs u s] by (auto simp: added_def)

lemma question_length_preserved:
  "\<forall>r\<in>set (all_faqs s). 5 < length (question r) \<Longrightarrow>
   \<forall>r\<in>set (all_faqs (add_faq L q a url s)). 5 < length (question r)"
  using add_faq_appends [of L q a url s] by auto

lemma new_scraper_fresh:
  "new_scraper L url mp = Some s0 \<Longrightarrow>
   visited_urls s0 = [] \<and> all_faqs s0 = [] \<and> seen_questions s0 = {} \<and> \<not> faq_page_found s0
   \<and> max_pages s0 = mp \<and> base_url s0 = rstrip_by (\<lambda>c. c = 47) url"
  by (auto simp: new_scraper_def Let_def split: option.splits)


lemma add_faq_seen_mono: "seen_questions s \<subseteq> seen_questions (add_faq L q a url s)"
  by (auto simp: add_faq_def Let_def)



section \<open>What a fetch returns\<close>

lemma unique_links_subset: "set (unique_links seen links) \<subseteq> set links"
  by (induction seen links rule: unique_links.induct) auto

lemma collect_links_unvisited:
  "collect_links L s as = Some links \<Longrightarrow> \<forall>l\<in>set links. fst l \<notin> set (visited_urls s)"
proof (induction as arbitrary: links)
  case Nil
  then show ?case by simp
next
  case (Cons a as)
  obtain href t where a: "a = (href, t)" by (cases a)
  from Cons.prems obtain rest where rest: "collect_links L s as = Some rest"
    and sub: "set links \<subseteq> set rest \<or> (\<exists>u. links = (u, str_lower L t) # rest \<and> u \<notin> set (visited_urls s))"
    unfolding a by (auto split: option.splits if_splits)
  from Cons.IH [OF rest] sub show ?case by auto
qed

lemma fetch_links_unvisited:
  "fetch_page_sync L w s url = Some (pg, links) \<Longrightarrow> \<forall>l\<in>set links. fst l \<notin> set (visited_urls s)"
  using unique_links_subset collect_links_unvisited
  by (fastforce simp: fetch_page_sync_def extract_links_with_text_def split: option.splits)

lemma normalize_url_state:
  "base_url s' = base_url s \<Longrightarrow> normalize_url L s' url = normalize_url L s url"
  unfolding normalize_url_def resolve_def by (simp only:)

lemma is_valid_internal_url_state:
  "domain s' = domain s \<Longrightarrow> is_valid_internal_url L s' url = is_valid_internal_url L s url"
  unfolding is_valid_internal_url_def by (simp only:)

lemma collect_links_fails_state:
  "base_url s' = base_url s \<Longrightarrow> domain s' = domain s \<Longrightarrow>
   (collect_links L s' as = None) = (collect_links L s as = None)"
proof (induction as)
  case Nil
  show ?case by simp
next
  case (Cons a as)
  obtain href t where a: "a = (href, t)" by (cases a)
  have n: "normalize_url L s' href = normalize_url L s href"
    by (rule normalize_url_state) (rule Cons.prems)
  have v: "is_valid_internal_url L s' u = is_valid_internal_url L s u" for u
    by (rule is_valid_internal_url_state) (rule Cons.prems)
  from Cons.IH [OF Cons.prems] have ih: "(collect_links L s' as = None) = (collect_links L s as = None)" .
  show ?case
  proof (cases "normalize_url L s href")
    case None
    with n have "normalize_url L s' href = None" by simp
    with None show ?thesis unfolding a by simp
  next
    case (Some u)
    with n have n': "normalize_url L s' href = Some u" by simp
    show ?thesis
    proof (cases "is_valid_internal_url L s u")
      case None
      with v [of u] have "is_valid_internal_url L s' u = None" by simp
      with None Some n' show ?thesis unfolding a by simp
    next
      case (Some ok)
      with v [of u] have v': "is_valid_internal_url L s' u = Some ok" by simp
      from Some v' \<open>normalize_url L s href = Some u\<close> n' ih show ?thesis
        unfolding a by (cases "collect_links L s as"; cases "collect_links L s' as") simp_all
    qed
  qed
qed

lemma fetch_fails_state:
  "base_url s' = base_url s \<Longrightarrow> domain s' = domain s \<Longrightarrow>
   (fetch_page_sync L w s' url = None) = (fetch_page_sync L w s url = None)"
proof -
  assume a: "base_url s' = base_url s" "domain s' = domain s"
  show ?thesis
  proof (cases "w url")
    case None
    then show ?thesis by (simp add: fetch_page_sync_def)
  next
    case (Some pg)
    with collect_links_fails_state [OF a, of L "anchors pg"] show ?thesis
      by (cases "collect_links L s (anchors pg)"; cases "collect_links L s' (anchors pg)")
         (simp_all add: fetch_page_sync_def extract_links_with_text_def)
  qed
qed

section \<open>The phases of the crawl\<close>

lemma visit_fields:
  "base_url (visit u s) = base_url s" "domain (visit u s) = domain s"
  "max_pages (visit u s) = max_pages s" "all_faqs (visit u s) = all_faqs s"
  "seen_questions (visit u s) = seen_questions s" "faq_page_found (visit u s) = faq_page_found s"
  "visited_urls (visit u s) = set_add u (visited_urls s)"
  by (simp_all add: visit_def)

lemma extract_fields:
  "base_url (extract_faqs_from_page L pg u s) = base_url s"
  "domain (extract_faqs_from_page L pg u s) = domain s"
  "max_pages (extract_faqs_from_page L pg u s) = max_pages s"
  "visited_urls (extract_faqs_from_page L pg u s) = visited_urls s"
  "faq_page_found (extract_faqs_from_page L pg u s) = faq_page_found s"
  using extract_faqs_from_page_same_crawl [of s L pg u] by (simp_all add: same_crawl_def)


lemma faq_step_fields:
  "base_url (faq_step L w l s) = base_url s" "domain (faq_step L w l s) = domain s"
  "max_pages (faq_step L w l s) = max_pages s"
  by (auto simp: faq_step_def Let_def visit_fields extract_fields split: option.splits)

lemma faq_step_visited:
  "set (visited_urls (faq_step L w l s)) = insert (fst l) (set (visited_urls s))"
  by (auto simp: faq_step_def Let_def visit_fields extract_fields set_add_def split: option.splits)

lemma faq_step_length:
  "length (visited_urls (faq_step L w l s)) \<le> Suc (length (visited_urls s))"
  by (auto simp: faq_step_def Let_def visit_fields extract_fields set_add_def split: option.splits)

lemma faq_step_flag:
  assumes "base_url s = base_url s0" "domain s = domain s0"
  shows "faq_page_found (faq_step L w l s) =
    (faq_page_found s \<or> (fst l \<notin> set (visited_urls s) \<and> fetch_page_sync L w s0 (fst l) \<noteq> None))"
proof -
  have "(fetch_page_sync L w (visit (fst l) s) (fst l) = None) = (fetch_page_sync L w s0 (fst l) = None)"
    by (rule fetch_fails_state) (simp_all add: visit_fields assms)
  then show ?thesis
    by (cases "fetch_page_sync L w (visit (fst l) s) (fst l)")
       (auto simp: faq_step_def Let_def visit_fields extract_fields)
qed


lemma crawl_faq_links_fields:
  "base_url (crawl_faq_links L w links s) = base_url s"
  "domain (crawl_faq_links L w links s) = domain s"
  "max_pages (crawl_faq_links L w links s) = max_pages s"
  by (induction links arbitrary: s) (simp_all add: crawl_faq_links_def faq_step_fields)


lemma crawl_faq_links_length:
  "length (visited_urls (crawl_faq_links L w links s)) \<le> length (visited_urls s) + length links"
proof (induction links arbitrary: s)
  case Nil
  show ?case by (simp add: crawl_faq_links_def)
next
  case (Cons l links)
  have "length (visited_urls (crawl_faq_links L w links (faq_step L w l s)))
      \<le> length (visited_urls (faq_step L w l s)) + length links" by (rule Cons.IH)
  with faq_step_length [of L w l s] show ?case by (simp add: crawl_faq_links_def)
qed

lemma exists_unvisited:
  "((c \<or> fst l \<notin> V \<and> ok (fst l)) \<or> (\<exists>k\<in>set links. fst k \<notin> insert (fst l) V \<and> ok (fst k)))
   = (c \<or> (\<exists>k\<in>set (l # links). fst k \<notin> V \<and> ok (fst k)))"
proof
  assume "(c \<or> fst l \<notin> V \<and> ok (fst l)) \<or> (\<exists>k\<in>set links. fst k \<notin> insert (fst l) V \<and> ok (fst k))"
  then show "c \<or> (\<exists>k\<in>set (l # links). fst k \<notin> V \<and> ok (fst k))" by auto
next
  assume "c \<or> (\<exists>k\<in>set (l # links). fst k \<notin> V \<and> ok (fst k))"
  then consider "c" | "fst l \<notin> V \<and> ok (fst l)" | k where "k \<in> set links" "fst k \<notin> V" "ok (fst k)"
    by auto
  then show "(c \<or> fst l \<notin> V \<and> ok (fst l)) \<or> (\<exists>k\<in>set links. fst k \<notin> insert (fst l) V \<and> ok (fst k))"
  proof cases
    case 1
    then show ?thesis by simp
  next
    case 2
    then show ?thesis by simp
  next
    case 3
    show ?thesis
    proof (cases "fst k = fst l")
      case True
      with 3 show ?thesis by simp
    next
      case False
      with 3 have "\<exists>k\<in>set links. fst k \<notin> insert (fst l) V \<and> ok (fst k)" by auto
      then show ?thesis by simp
    qed
  qed
qed

lemma crawl_faq_links_flag:
  assumes "base_url s = base_url s0" "domain s = domain s0"
  shows "faq_page_found (crawl_faq_links L w links s) =
    (faq_page_found s
     \<or> (\<exists>l\<in>set links. fst l \<notin> set (visited_urls s) \<and> fetch_page_sync L w s0 (fst l) \<noteq> None))"
  using assms
proof (induction links arbitrary: s)
  case Nil
  show ?case by (simp add: crawl_faq_links_def)
next
  case (Cons l links)
  have b: "base_url (faq_step L w l s) = base_url s0" "domain (faq_step L w l s) = domain s0"
    using Cons.prems by (simp_all add: faq_step_fields)
  have "faq_page_found (crawl_faq_links L w (l # links) s)
      = faq_page_found (crawl_faq_links L w links (faq_step L w l s))"
    by (simp add: crawl_faq_links_def)
  also have "\<dots> = (faq_page_found (faq_step L w l s)
     \<or> (\<exists>k\<in>set links. fst k \<notin> set (visited_urls (faq_step L w l s))
           \<and> fetch_page_sync L w s0 (fst k) \<noteq> None))"
    by (rule Cons.IH [OF b])
  also have "\<dots> = (faq_page_found s
     \<or> (\<exists>k\<in>set (l # links). fst k \<notin> set (visited_urls s) \<and> fetch_page_sync L w s0 (fst k) \<noteq> None))"
    unfolding faq_step_flag [OF Cons.prems] faq_step_visited by (rule exists_unvisited)
  finally show ?case .
qed


lemma crawl_all_invariant:
  assumes vis: "\<And>url s. P s \<Longrightarrow> int (length (visited_urls s)) < max_pages s \<Longrightarrow>
                  url \<notin> set (visited_urls s) \<Longrightarrow> P (visit url s)"
    and ext: "\<And>pg url s. P s \<Longrightarrow> int (length (visited_urls s)) < max_pages s \<Longrightarrow>
                  url \<notin> set (visited_urls s) \<Longrightarrow> P (extract_faqs_from_page L pg url (visit url s))"
    and "P s"
  shows "P (crawl_all L w to_crawl s)"
  using assms
proof (induction L w to_crawl s rule: crawl_all.induct)
  case (1 L w s)
  then show ?case by simp
next
  case (2 L w url t to_crawl s)
  note vis = "2.prems"(1) and ext = "2.prems"(2) and here = "2.prems"(3)
  show ?case
  proof (cases "int (length (visited_urls s)) < max_pages s")
    case False
    with here show ?thesis by simp
  next
    case lt: True
    show ?thesis
    proof (cases "url \<in> set (visited_urls s)")
      case True
      have "P (crawl_all L w to_crawl s)" by (rule "2.IH"(1) [OF lt True vis ext here])
      with lt True show ?thesis by simp
    next
      case new: False
      show ?thesis
      proof (cases "fetch_page_sync L w (visit url s) url")
        case None
        have "P (crawl_all L w to_crawl (visit url s))"
          by (rule "2.IH"(2) [OF lt new None vis ext vis [OF here lt new]])
        with lt new None show ?thesis by simp
      next
        case (Some r)
        obtain pg links where r: "r = (pg, links)" by (cases r)
        have "P (crawl_all L w
                (to_crawl @ filter (\<lambda>(l, t). l \<notin> set (visited_urls (visit url s))) links)
                (extract_faqs_from_page L pg url (visit url s)))"
          by (rule "2.IH"(3) [OF lt new Some r [symmetric] vis ext ext [OF here lt new]])
        with lt new Some r show ?thesis by simp
      qed
    qed
  qed
qed

lemma crawl_all_flag: "faq_page_found (crawl_all L w q s) = faq_page_found s"
  using crawl_all_invariant [where P = "\<lambda>t::scraper. faq_page_found t = faq_page_found s" and s = s]
  by (simp add: visit_fields extract_fields)

lemma crawl_all_bound:
  "int (length (visited_urls (crawl_all L w q s))) \<le> max (int (length (visited_urls s))) (max_pages s)"
proof -
  define n where "n = int (length (visited_urls s))"
  define m where "m = max_pages s"
  have "max_pages (crawl_all L w q s) = m
        \<and> int (length (visited_urls (crawl_all L w q s))) \<le> max n m"
    by (rule crawl_all_invariant
          [where P = "\<lambda>t::scraper. max_pages t = m \<and> int (length (visited_urls t)) \<le> max n m"])
       (auto simp: visit_fields extract_fields set_add_def n_def m_def)
  then show ?thesis by (simp add: n_def m_def)
qed


lemma after_homepage_fields:
  "base_url (after_homepage L w s0) = base_url s0"
  "domain (after_homepage L w s0) = domain s0"
  "max_pages (after_homepage L w s0) = max_pages s0"
  "faq_page_found (after_homepage L w s0) = faq_page_found s0"
  "visited_urls (after_homepage L w s0) = set_add (base_url s0) (visited_urls s0)"
  by (auto simp: after_homepage_def visit_fields extract_fields split: option.splits)


lemma homepage_links_unvisited:
  "\<forall>l\<in>set (homepage_links L w s0). fst l \<noteq> base_url s0"
proof (cases "homepage_result L w s0")
  case None
  then show ?thesis by (simp add: homepage_links_def)
next
  case (Some r)
  obtain pg links where r: "r = (pg, links)" by (cases r)
  with Some have "fetch_page_sync L w (visit (base_url s0) s0) (base_url s0) = Some (pg, links)"
    by (simp add: homepage_result_def)
  from fetch_links_unvisited [OF this]
  have "\<forall>l\<in>set links. fst l \<noteq> base_url s0"
    by (auto simp: visit_fields set_add_def split: if_splits)
  with Some r show ?thesis by (simp add: homepage_links_def)
qed

lemma faq_links_subset: "set (faq_links L w s0) \<subseteq> set (homepage_links L w s0)"
  by (auto simp: faq_links_def)

lemma after_faq_links_fields:
  "base_url (after_faq_links L w s0) = base_url s0"
  "domain (after_faq_links L w s0) = domain s0"
  "max_pages (after_faq_links L w s0) = max_pages s0"
  by (simp_all add: after_faq_links_def crawl_faq_links_fields after_homepage_fields)


lemma after_faq_links_length:
  "length (visited_urls (after_faq_links L w s0))
     \<le> length (set_add (base_url s0) (visited_urls s0)) + length (faq_links L w s0)"
  using crawl_faq_links_length [of L w "faq_links L w s0" "after_homepage L w s0"]
  by (simp add: after_faq_links_def after_homepage_fields)

lemma after_faq_links_flag:
  assumes "\<not> faq_page_found s0" "visited_urls s0 = []"
  shows "faq_page_found (after_faq_links L w s0)
     = (\<exists>l\<in>set (faq_links L w s0). fetch_page_sync L w s0 (fst l) \<noteq> None)"
proof -
  have u: "\<forall>l\<in>set (faq_links L w s0). fst l \<notin> set (visited_urls (after_homepage L w s0))"
    using homepage_links_unvisited [of L w s0] faq_links_subset [of L w s0] assms(2)
    by (auto simp: after_homepage_fields set_add_def)
  have "faq_page_found (crawl_faq_links L w (faq_links L w s0) (after_homepage L w s0))
     = (faq_page_found (after_homepage L w s0)
        \<or> (\<exists>l\<in>set (faq_links L w s0). fst l \<notin> set (visited_urls (after_homepage L w s0))
               \<and> fetch_page_sync L w s0 (fst l) \<noteq> None))"
    by (rule crawl_faq_links_flag) (simp_all add: after_homepage_fields)
  with u assms(1) show ?thesis
    by (auto simp: after_faq_links_def after_homepage_fields)
qed

lemma scrape_sync_state_flag:
  "faq_page_found (scrape_sync_state L w s0) = faq_page_found (after_faq_links L w s0)"
  by (simp add: scrape_sync_state_phases crawl_all_flag)

section \<open>The example crawls, step by step\<close>

lemma normalize_text_clean:
  assumes "clean_text L t"
  shows "normalize_text L t = t"
proof -
  from assms have ne: "t \<noteq> []"
    and 1: "strip (collapse_ws t) = t"
    and 2: "strip_by decoration t = t"
    and f3: "find_match (literal_ci ''subscribe newsletter'') t = None"
    and f4: "find_match (literal_ci ''sign up to get'') t = None"
    and f5: "find_match (copyright_pattern L) t = None"
    and f6: "find_match (literal_ci ''all rights reserved'') t = None"
    and f7: "find_match (literal_ci ''privacy policy'') t = None"
    and f8: "\<not> endswith (ci_fold t) (py ''to top'')"
    and 9: "strip t = t"
    unfolding clean_text_def by blast+
  have 3: "cut_at (literal_ci ''subscribe newsletter'') t = t" by (simp only: cut_at_def f3 option.case)
  have 4: "cut_at (literal_ci ''sign up to get'') t = t" by (simp only: cut_at_def f4 option.case)
  have 5: "cut_at (copyright_pattern L) t = t" by (simp only: cut_at_def f5 option.case)
  have 6: "cut_at (literal_ci ''all rights reserved'') t = t" by (simp only: cut_at_def f6 option.case)
  have 7: "cut_privacy_terms t = t" by (simp only: cut_privacy_terms_def f7 option.case)
  have 8: "cut_to_top t = t" using f8 by (simp only: cut_to_top_def if_False)
  show ?thesis
    unfolding normalize_text_def Let_def 1 2 3 4 5 6 7 8 9 using ne by (simp only: if_False)
qed

lemma clean_question_text: "clean_text demo_lib (py ''What is your return policy?'')"
proof -
  let ?t = "py ''What is your return policy?''"
  have "?t \<noteq> []" by (simp add: py_def)
  moreover have "strip (collapse_ws ?t) = ?t" by (simp add: str_defs char_defs)
  moreover have "strip_by decoration ?t = ?t" by (simp add: str_defs char_defs)
  moreover have "find_match (literal_ci ''subscribe newsletter'') ?t = None"
    by (simp add: literal_ci_def str_defs char_defs)
  moreover have "find_match (literal_ci ''sign up to get'') ?t = None"
    by (simp add: literal_ci_def str_defs char_defs)
  moreover have "find_match (copyright_pattern demo_lib) ?t = None"
    by (simp add: copyright_pattern_def str_defs char_defs)
  moreover have "find_match (literal_ci ''all rights reserved'') ?t = None"
    by (simp add: literal_ci_def str_defs char_defs)
  moreover have "find_match (literal_ci ''privacy policy'') ?t = None"
    by (simp add: literal_ci_def str_defs char_defs)
  moreover have "\<not> endswith (ci_fold ?t) (py ''to top'')" by (simp add: str_defs char_defs)
  moreover have "strip ?t = ?t" by (simp add: str_defs char_defs)
  ultimately show ?thesis unfolding clean_text_def by blast
qed

lemma clean_answer_text:
  "clean_text demo_lib (py ''You may return items within 30 days of purchase for a full refund.'')"
proof -
  let ?t = "py ''You may return items within 30 days of purchase for a full refund.''"
  have "?t \<noteq> []" by (simp add: py_def)
  moreover have "strip (collapse_ws ?t) = ?t" by (simp add: str_defs char_defs)
  moreover have "strip_by decoration ?t = ?t" by (simp add: str_defs char_defs)
  moreover have "find_match (literal_ci ''subscribe newsletter'') ?t = None"
    by (simp add: literal_ci_def str_defs char_defs)
  moreover have "find_match (literal_ci ''sign up to get'') ?t = None"
    by (simp add: literal_ci_def str_defs char_defs)
  moreover have "find_match (copyright_pattern demo_lib) ?t = None"
    by (simp add: copyright_pattern_def str_defs char_defs)
  moreover have "find_match (literal_ci ''all rights reserved'') ?t = None"
    by (simp add: literal_ci_def str_defs char_defs)
  moreover have "find_match (literal_ci ''privacy policy'') ?t = None"
    by (simp add: literal_ci_def str_defs char_defs)
  moreover have "\<not> endswith (ci_fold ?t) (py ''to top'')" by (simp add: str_defs char_defs)
  moreover have "strip ?t = ?t" by (simp add: str_defs char_defs)
  ultimately show ?thesis unfolding clean_text_def by blast
qed

lemma clean_short_text: "clean_text demo_lib (py ''Yes.'')"
proof -
  let ?t = "py ''Yes.''"
  have "?t \<noteq> []" by (simp add: py_def)
  moreover have "strip (collapse_ws ?t) = ?t" by (simp add: str_defs char_defs)
  moreover have "strip_by decoration ?t = ?t" by (simp add: str_defs char_defs)
  moreover have "find_match (literal_ci ''subscribe newsletter'') ?t = None"
    by (simp add: literal_ci_def str_defs char_defs)
  moreover have "find_match (literal_ci ''sign up to get'') ?t = None"
    by (simp add: literal_ci_def str_defs char_defs)
  moreover have "find_match (copyright_pattern demo_lib) ?t = None"
    by (simp add: copyright_pattern_def str_defs char_defs)
  moreover have "find_match (literal_ci ''all rights reserved'') ?t = None"
    by (simp add: literal_ci_def str_defs char_defs)
  moreover have "find_match (literal_ci ''privacy policy'') ?t = None"
    by (simp add: literal_ci_def str_defs char_defs)
  moreover have "\<not> endswith (ci_fold ?t) (py ''to top'')" by (simp add: str_defs char_defs)
  moreover have "strip ?t = ?t" by (simp add: str_defs char_defs)
  ultimately show ?thesis unfolding clean_text_def by blast
qed

text \<open>When \<open>_add_faq\<close> stores a pair.\<close>

lemma add_faq_stores:
  assumes "is_english q" "is_english a" "clean_question demo_lib q = q'" "question_key demo_lib q' = k"
    and "\<not> list_ex (\<lambda>p. contains p k) skip_patterns" "k \<noteq> []" "k \<notin> seen_questions s"
    and "5 < length q'"
  shows "add_faq demo_lib q a u s =
    s\<lparr>seen_questions := insert k (seen_questions s),
      all_faqs := all_faqs s @ [\<lparr>question = q', answer = a, sourceUrl = u\<rparr>]\<rparr>"
  using assms by (simp add: add_faq_def Let_def)

lemma add_faq_return_policy:
  assumes "py ''what is your return policy?'' \<notin> seen_questions s" and "is_english a"
  shows "add_faq demo_lib (py ''What is your return policy?'') a u s =
    s\<lparr>seen_questions := insert (py ''what is your return policy?'') (seen_questions s),
      all_faqs := all_faqs s @ [\<lparr>question = py ''What is your return policy?'', answer = a,
                                  sourceUrl = u\<rparr>]\<rparr>"
proof (rule add_faq_stores)
  show "is_english (py ''What is your return policy?'')"
    by (simp add: is_english_def ascii_letters_def non_ascii_def Let_def str_defs char_defs)
  show "is_english a" by (rule assms)
  show "clean_question demo_lib (py ''What is your return policy?'') = py ''What is your return policy?''"
    by (simp add: clean_question_def strip_string_prefix_def strip_ordinal_def str_defs char_defs)
  show "question_key demo_lib (py ''What is your return policy?'') = py ''what is your return policy?''"
    by (simp add: question_key_def str_defs char_defs)
  show "\<not> list_ex (\<lambda>p. contains p (py ''what is your return policy?'')) skip_patterns"
    by (simp add: skip_patterns_def str_defs)
  show "py ''what is your return policy?'' \<noteq> []" by (simp add: py_def)
  show "py ''what is your return policy?'' \<notin> seen_questions s" by (rule assms)
  show "5 < length (py ''What is your return policy?'')" by (simp add: py_def)
qed

lemma english_answer:
  "is_english (py ''You may return items within 30 days of purchase for a full refund.'')"
  by (simp add: is_english_def ascii_letters_def non_ascii_def Let_def str_defs char_defs)

lemma english_short: "is_english (py ''Yes.'')"
  by (simp add: is_english_def ascii_letters_def non_ascii_def Let_def str_defs char_defs)

text \<open>The pairs of the section with the question and its answer.\<close>

lemma qa_section_pairs:
  "paragraph_list_pairs demo_lib [py ''What is your return policy?'',
      py ''You may return items within 30 days of purchase for a full refund.'']
   = [(py ''What is your return policy?'',
       py ''You may return items within 30 days of purchase for a full refund.'')]"
proof -
  let ?q = "py ''What is your return policy?''"
  let ?a = "py ''You may return items within 30 days of purchase for a full refund.''"
  have q: "looks_like_question demo_lib ?q" by (simp add: looks_like_question_def str_defs)
  have a: "\<not> looks_like_question demo_lib ?a"
    by (simp add: looks_like_question_def question_words_def str_defs char_defs)
  have len: "20 < length ?a" by (simp add: py_def)
  have ne: "?q \<noteq> []" "?a \<noteq> []" by (simp_all add: py_def)
  have "question_pair demo_lib ?q [?a] = [(?q, ?a)]"
    unfolding question_pair_def using a len ne
    by (simp add: normalize_text_clean [OF clean_question_text]
        normalize_text_clean [OF clean_answer_text] both_long_def)
  with q a show ?thesis by simp
qed

lemma extract_qa_page:
  assumes "schema_items pg = []" "sections pg = [qa_section]"
  shows "extract_faqs_from_page demo_lib pg u s =
    add_faq demo_lib (py ''What is your return policy?'')
      (py ''You may return items within 30 days of purchase for a full refund.'') u s"
proof -
  have 1: "paragraphs_of qa_section = [py ''What is your return policy?'',
      py ''You may return items within 30 days of purchase for a full refund.'']"
    by (simp add: qa_section_def)
  have 2: "extract_elements demo_lib qa_section u t = t" for t by (simp add: qa_section_def)
  have 3: "extract_section demo_lib qa_section u t =
      add_faq demo_lib (py ''What is your return policy?'')
        (py ''You may return items within 30 days of purchase for a full refund.'') u t" for t
    unfolding extract_section_def Let_def 1 2 extract_from_paragraph_list_def qa_section_pairs
    by (simp add: add_all_def)
  show ?thesis
    unfolding extract_faqs_from_page_def extract_schema_faqs_def Let_def assms
    by (simp add: add_all_def 3)
qed

lemma extract_blank_page:
  assumes "schema_items pg = []" "sections pg = []"
  shows "extract_faqs_from_page demo_lib pg u s = s"
  unfolding extract_faqs_from_page_def extract_schema_faqs_def Let_def assms
  by (simp add: add_all_def)

lemma new_demo_scraper: "new_scraper demo_lib (py ''https://a.com'') 1 = Some demo_scraper"
  by (simp add: new_scraper_def Let_def demo_scraper_def demo_lib_def url_defs str_defs char_defs)

lemma normalize_faq_url:
  "normalize_url demo_lib s (py ''https://a.com/faq'') = Some (py ''https://a.com/faq'')"
  by (simp add: normalize_url_def url_defs str_defs char_defs demo_lib_def)

lemma normalize_questions_url:
  "normalize_url demo_lib s (py ''https://a.com/questions'') = Some (py ''https://a.com/questions'')"
  by (simp add: normalize_url_def url_defs str_defs char_defs demo_lib_def)

lemma normalize_about_url:
  "normalize_url demo_lib s (py ''https://a.com/about'') = Some (py ''https://a.com/about'')"
  by (simp add: normalize_url_def url_defs str_defs char_defs demo_lib_def)

lemma valid_url:
  assumes "urlparse demo_lib url = Some (url_of ''https'' ''a.com'' p)" "url \<noteq> []"
    and "\<not> skip_url url" "domain s = py ''a.com''"
    and "length (filter (\<lambda>seg. seg \<noteq> []) (split_on 47 (py p))) \<le> 1"
  shows "is_valid_internal_url demo_lib s url = Some True"
proof -
  have "\<not> 1 < length (filter (\<lambda>seg. seg \<noteq> []) (split_on 47 (py p)))" using assms(5) by simp
  then have "\<not> (strip_by (\<lambda>c. c = 47) (py p) \<noteq> [] \<and> 1 < length (split_on 47 (strip_by (\<lambda>c. c = 47) (py p))))"
    unfolding depth_rule .
  with assms(1-4) show ?thesis
    by (simp add: is_valid_internal_url_def url_of_def Let_def py_def)
qed

lemma valid_faq_url:
  "domain s = py ''a.com'' \<Longrightarrow> is_valid_internal_url demo_lib s (py ''https://a.com/faq'') = Some True"
proof (rule valid_url [where p = "''/faq''"])
  show "urlparse demo_lib (py ''https://a.com/faq'') = Some (url_of ''https'' ''a.com'' ''/faq'')"
    by (simp add: url_defs str_defs char_defs demo_lib_def url_of_def)
  show "py ''https://a.com/faq'' \<noteq> []" by (simp add: py_def)
  show "\<not> skip_url (py ''https://a.com/faq'')"
    by (simp add: skip_url_def search_ci_def search_ci_end_def literal_ci_def str_defs char_defs)
  show "length (filter (\<lambda>seg. seg \<noteq> []) (split_on 47 (py ''/faq''))) \<le> 1" by (simp add: py_def)
qed

lemma valid_questions_url:
  "domain s = py ''a.com'' \<Longrightarrow>
   is_valid_internal_url demo_lib s (py ''https://a.com/questions'') = Some True"
proof (rule valid_url [where p = "''/questions''"])
  show "urlparse demo_lib (py ''https://a.com/questions'') = Some (url_of ''https'' ''a.com'' ''/questions'')"
    by (simp add: url_defs str_defs char_defs demo_lib_def url_of_def)
  show "py ''https://a.com/questions'' \<noteq> []" by (simp add: py_def)
  show "\<not> skip_url (py ''https://a.com/questions'')"
    by (simp add: skip_url_def search_ci_def search_ci_end_def literal_ci_def str_defs char_defs)
  show "length (filter (\<lambda>seg. seg \<noteq> []) (split_on 47 (py ''/questions''))) \<le> 1"
    by (simp add: py_def)
qed

lemma valid_about_url:
  "domain s = py ''a.com'' \<Longrightarrow> is_valid_internal_url demo_lib s (py ''https://a.com/about'') = Some True"
proof (rule valid_url [where p = "''/about''"])
  show "urlparse demo_lib (py ''https://a.com/about'') = Some (url_of ''https'' ''a.com'' ''/about'')"
    by (simp add: url_defs str_defs char_defs demo_lib_def url_of_def)
  show "py ''https://a.com/about'' \<noteq> []" by (simp add: py_def)
  show "\<not> skip_url (py ''https://a.com/about'')"
    by (simp add: skip_url_def search_ci_def search_ci_end_def literal_ci_def str_defs char_defs)
  show "length (filter (\<lambda>seg. seg \<noteq> []) (split_on 47 (py ''/about''))) \<le> 1" by (simp add: py_def)
qed

lemma faq_link_faq: "is_faq_link demo_lib (py ''https://a.com/faq'') (py ''faq'')"
  by (simp add: is_faq_link_def Let_def str_defs char_defs)

lemma faq_link_questions: "is_faq_link demo_lib (py ''https://a.com/questions'') (py ''questions'')"
  by (simp add: is_faq_link_def Let_def str_defs char_defs)

lemma faq_link_about: "\<not> is_faq_link demo_lib (py ''https://a.com/about'') (py ''about'')"
  by (simp add: is_faq_link_def Let_def str_defs char_defs)

lemma collect_one:
  assumes "normalize_url L s h = Some u" "is_valid_internal_url L s u = Some True"
    and "u \<notin> set (visited_urls s)"
  shows "extract_links_with_text L s [(h, t)] = Some [(u, str_lower L t)]"
  using assms by (simp add: extract_links_with_text_def)

lemma collect_two:
  assumes "normalize_url L s h1 = Some u1" "is_valid_internal_url L s u1 = Some True"
    and "u1 \<notin> set (visited_urls s)"
    and "normalize_url L s h2 = Some u2" "is_valid_internal_url L s u2 = Some True"
    and "u2 \<notin> set (visited_urls s)" "u1 \<noteq> u2"
  shows "extract_links_with_text L s [(h1, t1), (h2, t2)] = Some [(u1, str_lower L t1), (u2, str_lower L t2)]"
  using assms by (simp add: extract_links_with_text_def)

lemma fetch_without_anchors:
  assumes "w url = Some pg" "anchors pg = []"
  shows "fetch_page_sync L w s url = Some (pg, [])"
  using assms by (simp add: fetch_page_sync_def extract_links_with_text_def)

lemma visit_base:
  "visit (base_url demo_scraper) demo_scraper = visited1"
  "visit (py ''https://a.com'') demo_scraper = visited1"
  by (simp_all add: visit_def set_add_def demo_scraper_def visited1_def)

lemma demo_base: "base_url demo_scraper = py ''https://a.com''"
  by (simp add: demo_scraper_def)

lemma two_faq_homepage:
  "homepage_result demo_lib web_two_faq demo_scraper =
     Some (home_two_links, [(py ''https://a.com/faq'', py ''faq''),
                            (py ''https://a.com/questions'', py ''questions'')])"
proof -
  have d: "domain visited1 = py ''a.com''" by (simp add: visited1_def demo_scraper_def)
  have v: "py ''https://a.com/faq'' \<notin> set (visited_urls visited1)"
    "py ''https://a.com/questions'' \<notin> set (visited_urls visited1)"
    "py ''https://a.com/faq'' \<noteq> py ''https://a.com/questions''"
    by (simp_all add: visited1_def demo_scraper_def py_def)
  have l: "str_lower demo_lib (py ''FAQ'') = py ''faq''" "str_lower demo_lib (py ''Questions'') = py ''questions''"
    by (simp_all add: str_defs char_defs)
  have "extract_links_with_text demo_lib visited1 (anchors home_two_links) =
      Some [(py ''https://a.com/faq'', py ''faq''), (py ''https://a.com/questions'', py ''questions'')]"
    using collect_two [OF normalize_faq_url valid_faq_url [OF d] v(1)
        normalize_questions_url valid_questions_url [OF d] v(2) v(3), of "py ''FAQ''" "py ''Questions''"]
    by (simp add: home_two_links_def l)
  moreover have "web_two_faq (py ''https://a.com'') = Some home_two_links"
    by (simp add: web_two_faq_def)
  ultimately show ?thesis
    by (simp add: homepage_result_def visit_base demo_base fetch_page_sync_def)
qed

lemma two_faq_links:
  "homepage_links demo_lib web_two_faq demo_scraper =
     [(py ''https://a.com/faq'', py ''faq''), (py ''https://a.com/questions'', py ''questions'')]"
  "faq_links demo_lib web_two_faq demo_scraper =
     [(py ''https://a.com/faq'', py ''faq''), (py ''https://a.com/questions'', py ''questions'')]"
  by (simp_all add: faq_links_def homepage_links_def two_faq_homepage faq_link_faq faq_link_questions)

lemma two_faq_after_homepage: "after_homepage demo_lib web_two_faq demo_scraper = visited1"
  by (simp add: after_homepage_def two_faq_homepage visit_base demo_base
      extract_blank_page home_two_links_def)

lemma two_faq_state: "scrape_sync_state demo_lib web_two_faq demo_scraper = two_faq_final"
proof -
  let ?faq = "py ''https://a.com/faq''"
  let ?qs = "py ''https://a.com/questions''"
  define s2 where "s2 = visited1\<lparr>visited_urls := [py ''https://a.com'', ?faq],
     seen_questions := {py ''what is your return policy?''},
     all_faqs := [return_policy ?faq], faq_page_found := True\<rparr>"
  have w1: "web_two_faq ?faq = Some faq_page" by (simp add: web_two_faq_def py_def)
  have w2: "web_two_faq ?qs = Some empty_page" by (simp add: web_two_faq_def py_def)
  have n1: "?faq \<notin> set (visited_urls visited1)"
    by (simp add: visited1_def demo_scraper_def py_def)
  have v1: "visit ?faq visited1 = visited1\<lparr>visited_urls := [py ''https://a.com'', ?faq]\<rparr>"
    by (simp add: visit_def set_add_def visited1_def demo_scraper_def py_def)
  have e1: "extract_faqs_from_page demo_lib faq_page ?faq (visit ?faq visited1)
      = (visit ?faq visited1)\<lparr>seen_questions := {py ''what is your return policy?''},
           all_faqs := [return_policy ?faq]\<rparr>"
    unfolding extract_qa_page [of faq_page, unfolded faq_page_def, simplified, folded faq_page_def]
    by (subst add_faq_return_policy)
       (simp_all add: english_answer visit_fields visited1_def demo_scraper_def return_policy_def)
  have f1: "fetch_page_sync demo_lib web_two_faq (visit ?faq visited1) ?faq = Some (faq_page, [])"
    using w1 by (simp add: fetch_page_sync_def extract_links_with_text_def faq_page_def)
  have "faq_step demo_lib web_two_faq (?faq, py ''faq'') visited1
      = (extract_faqs_from_page demo_lib faq_page ?faq (visit ?faq visited1))\<lparr>faq_page_found := True\<rparr>"
    using n1 by (simp add: faq_step_def Let_def f1)
  also have "\<dots> = s2"
    apply (simp only: e1)
    apply (simp add: v1 s2_def)
    done
  finally have step1: "faq_step demo_lib web_two_faq (?faq, py ''faq'') visited1 = s2" .
  have n2: "?qs \<notin> set (visited_urls s2)"
    by (simp add: s2_def py_def)
  have v2: "(visit ?qs s2)\<lparr>faq_page_found := True\<rparr> = two_faq_final"
    by (simp add: visit_def set_add_def s2_def visited1_def demo_scraper_def two_faq_final_def py_def)
  have f2: "fetch_page_sync demo_lib web_two_faq (visit ?qs s2) ?qs = Some (empty_page, [])"
    using w2 by (simp add: fetch_page_sync_def extract_links_with_text_def empty_page_def)
  have e2: "extract_faqs_from_page demo_lib empty_page ?qs (visit ?qs s2) = visit ?qs s2"
    by (rule extract_blank_page) (simp_all add: empty_page_def)
  have "faq_step demo_lib web_two_faq (?qs, py ''questions'') s2
      = (extract_faqs_from_page demo_lib empty_page ?qs (visit ?qs s2))\<lparr>faq_page_found := True\<rparr>"
    using n2 by (simp add: faq_step_def Let_def f2)
  also have "\<dots> = two_faq_final"
    apply (simp only: e2)
    apply (rule v2)
    done
  finally have step2: "faq_step demo_lib web_two_faq (?qs, py ''questions'') s2 = two_faq_final" .
  have "after_faq_links demo_lib web_two_faq demo_scraper = two_faq_final"
    by (simp add: after_faq_links_def two_faq_links two_faq_after_homepage crawl_faq_links_def
        step1 step2)
  moreover have "all_faqs two_faq_final \<noteq> []" by (simp add: two_faq_final_def)
  ultimately show ?thesis by (simp add: scrape_sync_state_phases)
qed

lemma home_only_homepage:
  "homepage_result demo_lib web_home_only demo_scraper =
     Some (home_with_faqs, [(py ''https://a.com/about'', py ''about'')])"
proof -
  have d: "domain visited1 = py ''a.com''" by (simp add: visited1_def demo_scraper_def)
  have v: "py ''https://a.com/about'' \<notin> set (visited_urls visited1)"
    by (simp add: visited1_def demo_scraper_def py_def)
  have l: "str_lower demo_lib (py ''About'') = py ''about''" by (simp add: str_defs char_defs)
  have "extract_links_with_text demo_lib visited1 (anchors home_with_faqs) =
      Some [(py ''https://a.com/about'', py ''about'')]"
    using collect_one [OF normalize_about_url valid_about_url [OF d] v, of "py ''About''"]
    by (simp add: home_with_faqs_def l)
  moreover have "web_home_only (py ''https://a.com'') = Some home_with_faqs"
    by (simp add: web_home_only_def)
  ultimately show ?thesis
    by (simp add: homepage_result_def visit_base demo_base fetch_page_sync_def)
qed

lemma home_only_links:
  "homepage_links demo_lib web_home_only demo_scraper = [(py ''https://a.com/about'', py ''about'')]"
  "faq_links demo_lib web_home_only demo_scraper = []"
  by (simp_all add: faq_links_def homepage_links_def home_only_homepage faq_link_about)

lemma home_only_after_homepage:
  "after_homepage demo_lib web_home_only demo_scraper = home_only_final"
proof -
  have e: "extract_faqs_from_page demo_lib home_with_faqs (py ''https://a.com'') visited1
      = add_faq demo_lib (py ''What is your return policy?'')
          (py ''You may return items within 30 days of purchase for a full refund.'')
          (py ''https://a.com'') visited1"
    by (rule extract_qa_page) (simp_all add: home_with_faqs_def)
  have "add_faq demo_lib (py ''What is your return policy?'')
          (py ''You may return items within 30 days of purchase for a full refund.'')
          (py ''https://a.com'') visited1 = home_only_final"
    by (subst add_faq_return_policy)
       (simp_all add: english_answer visited1_def demo_scraper_def return_policy_def
          home_only_final_def)
  with e show ?thesis
    by (simp add: after_homepage_def home_only_homepage visit_base demo_base)
qed

lemma home_only_state: "scrape_sync_state demo_lib web_home_only demo_scraper = home_only_final"
proof -
  have "after_faq_links demo_lib web_home_only demo_scraper = home_only_final"
    by (simp add: after_faq_links_def home_only_links home_only_after_homepage)
  moreover have "all_faqs home_only_final \<noteq> []" by (simp add: home_only_final_def)
  ultimately show ?thesis by (simp add: scrape_sync_state_phases)
qed

lemma faq_down_homepage:
  "homepage_result demo_lib web_faq_down demo_scraper =
     Some (home_one_link, [(py ''https://a.com/faq'', py ''faq'')])"
proof -
  have d: "domain visited1 = py ''a.com''" by (simp add: visited1_def demo_scraper_def)
  have v: "py ''https://a.com/faq'' \<notin> set (visited_urls visited1)"
    by (simp add: visited1_def demo_scraper_def py_def)
  have l: "str_lower demo_lib (py ''FAQ'') = py ''faq''" by (simp add: str_defs char_defs)
  have "extract_links_with_text demo_lib visited1 (anchors home_one_link) =
      Some [(py ''https://a.com/faq'', py ''faq'')]"
    using collect_one [OF normalize_faq_url valid_faq_url [OF d] v, of "py ''FAQ''"]
    by (simp add: home_one_link_def l)
  moreover have "web_faq_down (py ''https://a.com'') = Some home_one_link"
    by (simp add: web_faq_down_def)
  ultimately show ?thesis
    by (simp add: homepage_result_def visit_base demo_base fetch_page_sync_def)
qed

lemma faq_down_links:
  "homepage_links demo_lib web_faq_down demo_scraper = [(py ''https://a.com/faq'', py ''faq'')]"
  "faq_links demo_lib web_faq_down demo_scraper = [(py ''https://a.com/faq'', py ''faq'')]"
  by (simp_all add: faq_links_def homepage_links_def faq_down_homepage faq_link_faq)

lemma faq_down_state: "scrape_sync_state demo_lib web_faq_down demo_scraper = faq_down_final"
proof -
  let ?faq = "py ''https://a.com/faq''"
  have h: "after_homepage demo_lib web_faq_down demo_scraper = visited1"
    by (simp add: after_homepage_def faq_down_homepage visit_base demo_base
        extract_blank_page home_one_link_def)
  have n: "?faq \<notin> set (visited_urls visited1)"
    by (simp add: visited1_def demo_scraper_def py_def)
  have w: "web_faq_down ?faq = None" by (simp add: web_faq_down_def py_def)
  have f: "fetch_page_sync demo_lib web_faq_down (visit ?faq visited1) ?faq = None"
    using w by (simp add: fetch_page_sync_def)
  have v: "visit ?faq visited1 = faq_down_final"
    by (simp add: visit_def set_add_def visited1_def demo_scraper_def faq_down_final_def py_def)
  have "faq_step demo_lib web_faq_down (?faq, py ''faq'') visited1 = visit ?faq visited1"
    using n by (simp add: faq_step_def Let_def f)
  with v have a: "after_faq_links demo_lib web_faq_down demo_scraper = faq_down_final"
    by (simp add: after_faq_links_def faq_down_links h crawl_faq_links_def)
  have t: "filter (\<lambda>(url, text). url \<notin> set (visited_urls faq_down_final))
      [(py ''https://a.com/faq'', py ''faq'')] = []"
    by (simp add: faq_down_final_def)
  show ?thesis
    unfolding scrape_sync_state_phases a faq_down_links t by simp
qed

lemma run_demo:
  "run_scraper demo_lib w (py ''https://a.com'') 1 = Some (scrape_sync demo_lib w demo_scraper)"
  by (simp add: run_scraper_def new_demo_scraper)

lemma run_down:
  "run_scraper demo_lib web_down (py ''https://a.com'') 0
     = Some (result_of (demo_scraper\<lparr>max_pages := 0, visited_urls := [py ''https://a.com'']\<rparr>))"
proof -
  have n: "new_scraper demo_lib (py ''https://a.com'') 0 = Some (demo_scraper\<lparr>max_pages := 0\<rparr>)"
    by (simp add: new_scraper_def Let_def demo_scraper_def demo_lib_def url_defs str_defs char_defs)
  have "scrape_sync_state demo_lib web_down (demo_scraper\<lparr>max_pages := 0\<rparr>)
      = demo_scraper\<lparr>max_pages := 0, visited_urls := [py ''https://a.com'']\<rparr>"
    by (simp add: scrape_sync_state_def Let_def fetch_page_sync_def web_down_def visit_def
        set_add_def demo_scraper_def)
  with n show ?thesis by (simp add: run_scraper_def scrape_sync_def)
qed

lemma accordion_pairs:
  "details_pairs demo_lib accordion = [(py ''What is your return policy?'', py ''Yes.'')]"
  "container_pairs demo_lib accordion = []" "heading_pairs demo_lib accordion = []" "dl_pairs demo_lib accordion = []"
  "markdown_pairs demo_lib accordion = []" "paragraph_pairs demo_lib (paragraphs accordion) = []"
proof -
  have "py ''What is your return policy?'' \<noteq> []" "py ''Yes.'' \<noteq> []" by (simp_all add: py_def)
  then show "details_pairs demo_lib accordion = [(py ''What is your return policy?'', py ''Yes.'')]"
    by (simp add: details_pairs_def accordion_def both_def
        normalize_text_clean [OF clean_question_text] normalize_text_clean [OF clean_short_text])
qed (simp_all add: container_pairs_def heading_pairs_def dl_pairs_def markdown_pairs_def
    accordion_def)

lemma short_pair:
  "both (normalize_text demo_lib (py ''What is your return policy?'')) (normalize_text demo_lib (py ''Yes.''))
     = [(py ''What is your return policy?'', py ''Yes.'')]"
proof -
  have "py ''What is your return policy?'' \<noteq> []" "py ''Yes.'' \<noteq> []" by (simp_all add: py_def)
  then show ?thesis
    by (simp add: both_def normalize_text_clean [OF clean_question_text]
        normalize_text_clean [OF clean_short_text])
qed

lemma qa_container_pairs:
  "element_pairs demo_lib qa_container = [(py ''What is your return policy?'', py ''Yes.'')]"
  unfolding element_pairs_def
  by (simp add: details_pairs_def container_pairs_def heading_pairs_def dl_pairs_def
      markdown_pairs_def qa_container_def short_pair)

lemma definition_list_pairs:
  "element_pairs demo_lib definition_list = [(py ''What is your return policy?'', py ''Yes.'')]"
  unfolding element_pairs_def
  by (simp add: details_pairs_def container_pairs_def heading_pairs_def dl_pairs_def
      markdown_pairs_def definition_list_def short_pair)

lemma add_return_policy:
  "add_all demo_lib [(py ''What is your return policy?'', a)] u visited1 =
     (if is_english a
      then visited1\<lparr>seen_questions := {py ''what is your return policy?''},
             all_faqs := [\<lparr>question = py ''What is your return policy?'', answer = a,
                           sourceUrl = u\<rparr>]\<rparr>
      else visited1)"
proof (cases "is_english a")
  case True
  have "py ''what is your return policy?'' \<notin> seen_questions visited1"
    by (simp add: visited1_def demo_scraper_def)
  from add_faq_return_policy [OF this True, of u] True show ?thesis
    by (simp add: add_all_def visited1_def demo_scraper_def)
next
  case False
  then show ?thesis by (simp add: add_all_def add_faq_not_english)
qed

lemma added_first: "all_faqs s = [] \<Longrightarrow> added s s' = all_faqs s'"
  by (simp add: added_def)

section \<open>The number of pages processed\<close>

text \<open>
  C1, as the code has it. The homepage is always visited, the loop over the FAQ links
  visits every one of them without looking at \<open>max_pages\<close>, and only the full crawl
  stops at \<open>max_pages\<close>. So for every crawl the number of pages processed is at most the
  larger of \<open>max_pages\<close> and one plus the number of homepage links classified as FAQ
  links; when no homepage link is an FAQ link and \<open>max_pages\<close> is at least 1, it is at
  most \<open>max_pages\<close>.
\<close>

theorem pages_bounded:
  assumes "new_scraper L url mp = Some s0"
  shows "run_scraper L w url mp = Some (scrape_sync L w s0)
    \<and> int (pagesProcessed (scrape_sync L w s0)) \<le> max mp (1 + int (length (faq_links L w s0)))
    \<and> (faq_links L w s0 = [] \<and> 1 \<le> mp \<longrightarrow> int (pagesProcessed (scrape_sync L w s0)) \<le> mp)"
proof -
  from new_scraper_fresh [OF assms] have fresh: "visited_urls s0 = []" and mp: "max_pages s0 = mp"
    by simp_all
  have len3: "int (length (visited_urls (after_faq_links L w s0))) \<le> 1 + int (length (faq_links L w s0))"
    using after_faq_links_length [of L w s0] fresh by (simp add: set_add_def)
  have "int (length (visited_urls (scrape_sync_state L w s0)))
      \<le> max (int (length (visited_urls (after_faq_links L w s0)))) mp"
    using crawl_all_bound [of L w _ "after_faq_links L w s0"]
    by (simp add: scrape_sync_state_phases after_faq_links_fields mp)
  with len3 have b: "int (length (visited_urls (scrape_sync_state L w s0)))
      \<le> max mp (1 + int (length (faq_links L w s0)))" by simp
  have r: "run_scraper L w url mp = Some (scrape_sync L w s0)"
    using assms by (simp add: run_scraper_def)
  from b r show ?thesis by (auto simp: scrape_sync_def result_of_def)
qed

text \<open>The site whose homepage holds the question: no FAQ link, one page, \<open>max_pages = 1\<close>.\<close>

theorem pages_bounded_witness:
  "new_scraper demo_lib (py ''https://a.com'') 1 = Some demo_scraper
   \<and> faq_links demo_lib web_home_only demo_scraper = [] \<and> (1::int) \<le> 1
   \<and> run_scraper demo_lib web_home_only (py ''https://a.com'') 1
       = Some (scrape_sync demo_lib web_home_only demo_scraper)
   \<and> int (pagesProcessed (scrape_sync demo_lib web_home_only demo_scraper)) \<le> 1"
  using pages_bounded [OF new_demo_scraper, of web_home_only] home_only_links(2) new_demo_scraper
  by simp

text \<open>
  With \<open>max_pages = 1\<close> and two FAQ links on the homepage, three pages are processed.
  With \<open>max_pages = 0\<close> one page is processed, on a site where no request succeeds: the
  homepage is marked visited before anything is tested.
\<close>

theorem pages_bounded_counterexample:
  "run_scraper demo_lib web_two_faq (py ''https://a.com'') 1 = Some (result_of two_faq_final)
   \<and> max_pages two_faq_final = 1
   \<and> pagesProcessed (result_of two_faq_final) = 3
   \<and> \<not> int (pagesProcessed (result_of two_faq_final)) \<le> max_pages two_faq_final
   \<and> run_scraper demo_lib web_down (py ''https://a.com'') 0
       = Some (result_of (demo_scraper\<lparr>max_pages := 0, visited_urls := [py ''https://a.com'']\<rparr>))
   \<and> pagesProcessed (result_of (demo_scraper\<lparr>max_pages := 0, visited_urls := [py ''https://a.com'']\<rparr>)) = 1"
proof -
  have "run_scraper demo_lib web_two_faq (py ''https://a.com'') 1 = Some (result_of two_faq_final)"
    unfolding run_demo scrape_sync_def two_faq_state ..
  moreover have "max_pages two_faq_final = 1 \<and> pagesProcessed (result_of two_faq_final) = 3
      \<and> \<not> int (pagesProcessed (result_of two_faq_final)) \<le> max_pages two_faq_final"
    by (simp add: result_of_def two_faq_final_def demo_scraper_def)
  moreover have "pagesProcessed (result_of (demo_scraper\<lparr>max_pages := 0,
      visited_urls := [py ''https://a.com'']\<rparr>)) = 1"
    by (simp add: result_of_def)
  ultimately show ?thesis using run_down by blast
qed

section \<open>One record for each question\<close>



section \<open>The lengths of questions and answers\<close>

text \<open>
  C3, as the code has it. Every record of a crawl has a question of more than 5
  characters. Every record that the strategies with a heading, with markers and with
  paragraphs append (pattern 3, pattern 5, pattern 6 and the scan of a section's
  paragraphs) has an answer of more than 20 characters. Every record that the strategies
  with \<open>details\<close>, with class-based containers and with definition lists append (patterns
  1, 2 and 4) has an answer that is not empty; these strategies do not test its length.
\<close>

theorem record_lengths:
  "(run_scraper L w url mp = Some res \<longrightarrow> (\<forall>r\<in>set (faqs res). 5 < length (question r)))
   \<and> (\<forall>r\<in>set (added s (add_all L (heading_pairs L e @ markdown_pairs L e @ paragraph_pairs L ps
                                     @ paragraph_list_pairs L ps') u s)). 20 < length (answer r))
   \<and> (\<forall>r\<in>set (added s (add_all L (details_pairs L e @ container_pairs L e @ dl_pairs L e) u s)).
         answer r \<noteq> [])"
proof (intro conjI impI)
  assume "run_scraper L w url mp = Some res"
  then obtain s0 where s0: "new_scraper L url mp = Some s0" and res: "res = scrape_sync L w s0"
    by (auto simp: run_scraper_def)
  from s0 have init: "\<forall>r\<in>set (all_faqs s0). 5 < length (question r)"
    using new_scraper_fresh by fastforce
  have "\<forall>r\<in>set (all_faqs (scrape_sync_state L w s0)). 5 < length (question r)"
    by (rule scrape_sync_state_preserves
          [where P = "\<lambda>s. \<forall>r\<in>set (all_faqs s). 5 < length (question r)", OF _ _ _ init])
       (simp_all add: question_length_preserved visit_def)
  then show "\<forall>r\<in>set (faqs res). 5 < length (question r)"
    by (simp add: res scrape_sync_def result_of_def)
next
  show "\<forall>r\<in>set (added s (add_all L (heading_pairs L e @ markdown_pairs L e @ paragraph_pairs L ps
                                     @ paragraph_list_pairs L ps') u s)). 20 < length (answer r)"
    using added_add_all [of s L "heading_pairs L e @ markdown_pairs L e @ paragraph_pairs L ps
                                     @ paragraph_list_pairs L ps'" u]
    by (auto dest: heading_pairs_long markdown_pairs_long paragraph_pairs_long
        paragraph_list_pairs_long)
next
  show "\<forall>r\<in>set (added s (add_all L (details_pairs L e @ container_pairs L e @ dl_pairs L e) u s)).
         answer r \<noteq> []"
    using added_add_all [of s L "details_pairs L e @ container_pairs L e @ dl_pairs L e" u]
    by (auto dest: details_pairs_nonempty container_pairs_nonempty dl_pairs_nonempty)
qed

text \<open>
  The crawl of the site with two FAQ links; the section of two paragraphs, whose answer
  has 66 characters; the element with one \<open>details\<close>.
\<close>

theorem record_lengths_witness:
  "run_scraper demo_lib web_two_faq (py ''https://a.com'') 1 = Some (result_of two_faq_final)
   \<and> faqs (result_of two_faq_final) = [return_policy (py ''https://a.com/faq'')]
   \<and> 5 < length (question (return_policy (py ''https://a.com/faq'')))
   \<and> added visited1 (add_all demo_lib (heading_pairs demo_lib accordion @ markdown_pairs demo_lib accordion @ paragraph_pairs demo_lib []
         @ paragraph_list_pairs demo_lib [py ''What is your return policy?'',
             py ''You may return items within 30 days of purchase for a full refund.''])
         (py ''https://a.com/faq'') visited1) = [return_policy (py ''https://a.com/faq'')]
   \<and> 20 < length (answer (return_policy (py ''https://a.com/faq'')))
   \<and> added visited1 (add_all demo_lib (details_pairs demo_lib accordion @ container_pairs demo_lib accordion @ dl_pairs demo_lib accordion)
         (py ''https://a.com/faq'') visited1) = [short_answer (py ''https://a.com/faq'')]
   \<and> answer (short_answer (py ''https://a.com/faq'')) \<noteq> []"
proof -
  let ?u = "py ''https://a.com/faq''"
  let ?long = "heading_pairs demo_lib accordion @ markdown_pairs demo_lib accordion @ paragraph_pairs demo_lib []
         @ paragraph_list_pairs demo_lib [py ''What is your return policy?'',
             py ''You may return items within 30 days of purchase for a full refund.'']"
  let ?short = "details_pairs demo_lib accordion @ container_pairs demo_lib accordion @ dl_pairs demo_lib accordion"
  have e: "all_faqs visited1 = []" by (simp add: visited1_def demo_scraper_def)
  have run: "run_scraper demo_lib web_two_faq (py ''https://a.com'') 1 = Some (result_of two_faq_final)"
    unfolding run_demo scrape_sync_def two_faq_state ..
  have fs: "faqs (result_of two_faq_final) = [return_policy ?u]"
    by (simp add: result_of_def two_faq_final_def)
  have a1: "added visited1 (add_all demo_lib ?long ?u visited1) = [return_policy ?u]"
    unfolding added_first [OF e] accordion_pairs qa_section_pairs paragraph_pairs.simps append_Nil
      add_return_policy
    by (simp add: english_answer return_policy_def)
  have a2: "added visited1 (add_all demo_lib ?short ?u visited1) = [short_answer ?u]"
    unfolding added_first [OF e] accordion_pairs append_Nil2 add_return_policy
    by (simp add: english_short short_answer_def)
  note inst = record_lengths [of demo_lib web_two_faq "py ''https://a.com''" 1 "result_of two_faq_final"
      visited1 accordion "[]" "[py ''What is your return policy?'',
             py ''You may return items within 30 days of purchase for a full refund.'']" ?u]
  from inst run fs have "5 < length (question (return_policy ?u))" by simp
  moreover from inst a1 have "20 < length (answer (return_policy ?u))" by simp
  moreover from inst a2 have "answer (short_answer ?u) \<noteq> []" by simp
  ultimately show ?thesis using run fs a1 a2 by blast
qed

text \<open>
  The three strategies store an answer of four characters: \<open>_extract_from_faq_element\<close>
  appends the record with the answer \<open>Yes.\<close> on the element with one \<open>details\<close>, on the
  element with one class-based container, and on the element with one definition list.
\<close>

theorem record_lengths_counterexample:
  "all_faqs (extract_from_faq_element demo_lib accordion (py ''https://a.com/faq'') visited1)
     = [short_answer (py ''https://a.com/faq'')]
   \<and> all_faqs (extract_from_faq_element demo_lib qa_container (py ''https://a.com/faq'') visited1)
     = [short_answer (py ''https://a.com/faq'')]
   \<and> all_faqs (extract_from_faq_element demo_lib definition_list (py ''https://a.com/faq'') visited1)
     = [short_answer (py ''https://a.com/faq'')]
   \<and> answer (short_answer (py ''https://a.com/faq'')) = py ''Yes.''
   \<and> \<not> 20 < length (py ''Yes.'')"
proof -
  have "all_faqs (extract_from_faq_element demo_lib accordion (py ''https://a.com/faq'') visited1)
     = [short_answer (py ''https://a.com/faq'')]"
    unfolding extract_from_faq_element_def element_pairs_def accordion_pairs append_Nil2
      add_return_policy
    by (simp add: english_short short_answer_def)
  moreover have "all_faqs (extract_from_faq_element demo_lib qa_container (py ''https://a.com/faq'') visited1)
     = [short_answer (py ''https://a.com/faq'')]"
    unfolding extract_from_faq_element_def qa_container_pairs add_return_policy
    by (simp add: english_short short_answer_def)
  moreover have "all_faqs (extract_from_faq_element demo_lib definition_list (py ''https://a.com/faq'') visited1)
     = [short_answer (py ''https://a.com/faq'')]"
    unfolding extract_from_faq_element_def definition_list_pairs add_return_policy
    by (simp add: english_short short_answer_def)
  moreover have "answer (short_answer (py ''https://a.com/faq'')) = py ''Yes.''"
    by (simp add: short_answer_def)
  moreover have "\<not> 20 < length (py ''Yes.'')" by (simp add: py_def)
  ultimately show ?thesis by blast
qed

section \<open>FAQ pages first\<close>




section \<open>The FAQ flag\<close>

text \<open>
  C5, as the code has it. \<open>faqPageFound\<close> is true exactly when some homepage link
  classified as an FAQ link is fetched with success, that is, \<open>_fetch_page_sync\<close> returns a
  page for it. Records play no part. (Whether a fetch succeeds depends on the URL, the
  base URL and the domain, not on the pages visited before, so the statement asks it of
  the scraper as it was created.)
\<close>

theorem faq_page_found_iff:
  assumes "new_scraper L url mp = Some s0"
  shows "run_scraper L w url mp = Some (scrape_sync L w s0)
    \<and> faqPageFound (scrape_sync L w s0)
        = (\<exists>l\<in>set (faq_links L w s0). fetch_page_sync L w s0 (fst l) \<noteq> None)"
proof -
  from new_scraper_fresh [OF assms] have fresh: "visited_urls s0 = []" "\<not> faq_page_found s0"
    by simp_all
  have r: "run_scraper L w url mp = Some (scrape_sync L w s0)"
    using assms by (simp add: run_scraper_def)
  with after_faq_links_flag [OF fresh(2) fresh(1), of L w] show ?thesis
    by (simp add: scrape_sync_def result_of_def scrape_sync_state_flag)
qed

text \<open>The site with two FAQ links: \<open>/faq\<close> is fetched, and the flag is set.\<close>

theorem faq_page_found_iff_witness:
  "new_scraper demo_lib (py ''https://a.com'') 1 = Some demo_scraper
   \<and> (py ''https://a.com/faq'', py ''faq'') \<in> set (faq_links demo_lib web_two_faq demo_scraper)
   \<and> fetch_page_sync demo_lib web_two_faq demo_scraper (py ''https://a.com/faq'') \<noteq> None
   \<and> faqPageFound (scrape_sync demo_lib web_two_faq demo_scraper)"
proof -
  have l: "(py ''https://a.com/faq'', py ''faq'') \<in> set (faq_links demo_lib web_two_faq demo_scraper)"
    by (simp add: two_faq_links)
  have "web_two_faq (py ''https://a.com/faq'') = Some faq_page" by (simp add: web_two_faq_def py_def)
  then have f: "fetch_page_sync demo_lib web_two_faq demo_scraper (py ''https://a.com/faq'') \<noteq> None"
    by (simp add: fetch_page_sync_def extract_links_with_text_def faq_page_def)
  from faq_page_found_iff [OF new_demo_scraper, of web_two_faq] l f
  have "faqPageFound (scrape_sync demo_lib web_two_faq demo_scraper)" by force
  with l f new_demo_scraper show ?thesis by simp
qed

text \<open>
  The site whose FAQ page cannot be fetched: the FAQ branch is taken, the link is
  visited, and the flag stays false.
\<close>

theorem faq_page_found_iff_counterexample:
  "faq_links demo_lib web_faq_down demo_scraper = [(py ''https://a.com/faq'', py ''faq'')]
   \<and> py ''https://a.com/faq'' \<in> set (visited_urls (scrape_sync_state demo_lib web_faq_down demo_scraper))
   \<and> \<not> faqPageFound (scrape_sync demo_lib web_faq_down demo_scraper)"
  unfolding faq_down_links scrape_sync_def faq_down_state
  by (simp add: result_of_def faq_down_final_def demo_scraper_def)

section \<open>FAQs on the homepage end the crawl\<close>

text \<open>
  C10. If extraction from the homepage leaves at least one record and no homepage link
  is classified as an FAQ link, the crawl fetches the homepage only: one page is
  processed and \<open>faqPageFound\<close> is false.
\<close>

theorem homepage_faqs_end_crawl:
  assumes new: "new_scraper L url mp = Some s0"
    and home: "all_faqs (after_homepage L w s0) \<noteq> []"
    and none: "\<not> list_ex (\<lambda>(u, t). is_faq_link L u t) (homepage_links L w s0)"
  shows "run_scraper L w url mp = Some (scrape_sync L w s0)
    \<and> visited_urls (scrape_sync_state L w s0) = [base_url s0]
    \<and> pagesProcessed (scrape_sync L w s0) = 1
    \<and> \<not> faqPageFound (scrape_sync L w s0)"
proof -
  from new_scraper_fresh [OF new] have fresh: "visited_urls s0 = []" "\<not> faq_page_found s0"
    by simp_all
  from none have "faq_links L w s0 = []"
    by (auto simp: faq_links_def list_ex_iff filter_empty_conv)
  then have a: "after_faq_links L w s0 = after_homepage L w s0" by (simp add: after_faq_links_def)
  with home have s: "scrape_sync_state L w s0 = after_homepage L w s0"
    by (simp add: scrape_sync_state_phases)
  have r: "run_scraper L w url mp = Some (scrape_sync L w s0)"
    using new by (simp add: run_scraper_def)
  from s r fresh show ?thesis
    by (simp add: scrape_sync_def result_of_def after_homepage_fields set_add_def)
qed

text \<open>The site whose homepage holds the question and links to \<open>/about\<close>, which is not fetched.\<close>

theorem homepage_faqs_end_crawl_witness:
  "new_scraper demo_lib (py ''https://a.com'') 1 = Some demo_scraper
   \<and> all_faqs (after_homepage demo_lib web_home_only demo_scraper) \<noteq> []
   \<and> \<not> list_ex (\<lambda>(u, t). is_faq_link demo_lib u t) (homepage_links demo_lib web_home_only demo_scraper)
   \<and> visited_urls (scrape_sync_state demo_lib web_home_only demo_scraper) = [base_url demo_scraper]
   \<and> pagesProcessed (scrape_sync demo_lib web_home_only demo_scraper) = 1
   \<and> \<not> faqPageFound (scrape_sync demo_lib web_home_only demo_scraper)"
proof -
  have h: "all_faqs (after_homepage demo_lib web_home_only demo_scraper) \<noteq> []"
    by (simp add: home_only_after_homepage home_only_final_def)
  have n: "\<not> list_ex (\<lambda>(u, t). is_faq_link demo_lib u t) (homepage_links demo_lib web_home_only demo_scraper)"
    by (simp add: home_only_links faq_link_about)
  from homepage_faqs_end_crawl [OF new_demo_scraper h n] h n new_demo_scraper
  show ?thesis by blast
qed

end
